theory Spec2Isabelle
  imports Main "HOL-Library.Multiset" "HOL-Library.Sublist"
begin

section \<open>Strings of the source language\<close>

text \<open>
  A string of the source is a sequence of UTF-16 code units; \<open>length\<close>, indexing,
  \<open>startsWith\<close> and the regular expressions of the source (none has the \<open>u\<close> flag) all
  work on code units. A code unit is modelled as a natural number, so that the bullet
  U+2022 and the middle dot U+00B7 of the card parser are ordinary characters.
  \<open>jsstr\<close> turns an ASCII literal into such a string.
\<close>

type_synonym jschar = nat
type_synonym jsstring = "jschar list"

definition jsstr :: "string \<Rightarrow> jsstring" where
  "jsstr s = map of_char s"

text \<open>The class \<open>\s\<close> of the regular expressions; \<open>trim\<close> removes the same characters.\<close>

definition isSpaceJS :: "jschar \<Rightarrow> bool" where
  "isSpaceJS c \<longleftrightarrow>
     (9 \<le> c \<and> c \<le> 13) \<or> c = 32 \<or> c = 160 \<or> c = 5760 \<or> (8192 \<le> c \<and> c \<le> 8202) \<or>
     c = 8232 \<or> c = 8233 \<or> c = 8239 \<or> c = 8287 \<or> c = 12288 \<or> c = 65279"

definition notSpaceJS :: "jschar \<Rightarrow> bool" where
  "notSpaceJS c \<longleftrightarrow> \<not> isSpaceJS c"

definition isDigit :: "jschar \<Rightarrow> bool" where
  "isDigit c \<longleftrightarrow> 48 \<le> c \<and> c \<le> 57"

definition isLowerAZ :: "jschar \<Rightarrow> bool" where
  "isLowerAZ c \<longleftrightarrow> 97 \<le> c \<and> c \<le> 122"

definition isUpperAZ :: "jschar \<Rightarrow> bool" where
  "isUpperAZ c \<longleftrightarrow> 65 \<le> c \<and> c \<le> 90"

definition trim :: "jsstring \<Rightarrow> jsstring" where
  "trim s = rev (dropWhile isSpaceJS (rev (dropWhile isSpaceJS s)))"

definition startsWith :: "jsstring \<Rightarrow> jsstring \<Rightarrow> bool" where
  "startsWith s p \<longleftrightarrow> take (length p) s = p"

definition endsWith :: "jsstring \<Rightarrow> jsstring \<Rightarrow> bool" where
  "endsWith s p \<longleftrightarrow> length p \<le> length s \<and> drop (length s - length p) s = p"

text \<open>
  \<open>toLowerCase\<close>. The image of one code unit is exact for ASCII, for Latin-1, and for the
  three characters beyond Latin-1 whose lower case reaches back into it: U+0130 (to
  \<open>i\<close> and U+0307), the Kelvin sign U+212A (to \<open>k\<close>) and the Angstrom sign U+212B.
  Every other code unit has a lower case outside ASCII and outside \<open>\s\<close>; the source
  only compares lower-cased text with ASCII text or replaces such characters by a
  space, so the model leaves those units as they are.
\<close>

definition lowerUnit :: "jschar \<Rightarrow> jsstring" where
  "lowerUnit c =
     (if isUpperAZ c then [c + 32]
      else if 192 \<le> c \<and> c \<le> 222 \<and> c \<noteq> 215 then [c + 32]
      else if c = 304 then [105, 775]
      else if c = 8490 then [107]
      else if c = 8491 then [229]
      else [c])"

definition toLowerCase :: "jsstring \<Rightarrow> jsstring" where
  "toLowerCase s = concat (map lowerUnit s)"

text \<open>
  Case-insensitive comparison of the regular expressions (flag \<open>i\<close>, no flag \<open>u\<close>): two
  code units match when their upper-case images agree, and a unit outside ASCII never
  takes an ASCII image. For an ASCII letter of a pattern that leaves the letter itself
  in either case.
\<close>

definition foldAscii :: "jschar \<Rightarrow> jschar" where
  "foldAscii c = (if isUpperAZ c then c + 32 else c)"

definition eqCI :: "jsstring \<Rightarrow> jsstring \<Rightarrow> bool" where
  "eqCI s p \<longleftrightarrow> map foldAscii s = map foldAscii p"

definition startsWithCI :: "jsstring \<Rightarrow> jsstring \<Rightarrow> bool" where
  "startsWithCI s p \<longleftrightarrow> eqCI (take (length p) s) p"

text \<open>\<open>String(n)\<close> for a non-negative integer: its decimal digits.\<close>

function numToString :: "nat \<Rightarrow> jsstring" where
  "numToString n = (if n < 10 then [48 + n] else numToString (n div 10) @ [48 + n mod 10])"
  by pat_completeness auto
termination
  by (relation "measure id") auto

declare numToString.simps [simp del]

text \<open>
  \<open>s.split(/\s+/)\<close>: the pieces between the maximal runs of white space. The first
  piece runs up to the first white space; with none, it is the whole string and the
  only piece (also for the empty string). A run at the start or at the end leaves an
  empty piece there.
\<close>

function splitWs :: "jsstring \<Rightarrow> jsstring list" where
  "splitWs s =
     (case dropWhile notSpaceJS s of
        [] \<Rightarrow> [s]
      | c # rest \<Rightarrow> takeWhile notSpaceJS s # splitWs (dropWhile isSpaceJS rest))"
  by pat_completeness auto
termination
proof (relation "measure length")
  fix s :: jsstring and c rest
  assume "dropWhile notSpaceJS s = c # rest"
  then have "length (c # rest) \<le> length s"
    by (metis length_dropWhile_le)
  moreover have "length (dropWhile isSpaceJS rest) \<le> length rest"
    by (rule length_dropWhile_le)
  ultimately show "(dropWhile isSpaceJS rest, s) \<in> measure length"
    by simp
qed simp

declare splitWs.simps [simp del]

section \<open>Token similarity\<close>

text \<open>
  \<^verbatim>\<open>value.toLowerCase().replace(/[^a-z0-9\s]/g, " ").split(/\s+/)
       .map((token) => token.trim()).filter((token) => token.length > 2)\<close>
\<close>

definition replaceNonAlnum :: "jsstring \<Rightarrow> jsstring" where
  "replaceNonAlnum s = map (\<lambda>c. if isLowerAZ c \<or> isDigit c \<or> isSpaceJS c then c else 32) s"

definition tokenize :: "jsstring \<Rightarrow> jsstring list" where
  "tokenize v = filter (\<lambda>token. length token > 2)
                  (map trim (splitWs (replaceNonAlnum (toLowerCase v))))"

text \<open>
  \<open>new Set(xs)\<close> adds the elements one by one; an element already present is not added
  again, so the set keeps the first occurrence of each element, in insertion order.
\<close>

definition setAdd :: "'a list \<Rightarrow> 'a \<Rightarrow> 'a list" where
  "setAdd s x = (if x \<in> set s then s else s @ [x])"

definition newSet :: "'a list \<Rightarrow> 'a list" where
  "newSet xs = foldl setAdd [] xs"

text \<open>
  \<open>sharedTokenCount\<close>: the loop over the first set counts its elements that the second
  set has.
\<close>

fun countShared :: "jsstring list \<Rightarrow> jsstring list \<Rightarrow> nat \<Rightarrow> nat" where
  "countShared [] bTokens n = n"
| "countShared (token # rest) bTokens n =
     countShared rest bTokens (if token \<in> set bTokens then n + 1 else n)"

definition sharedTokenCount :: "jsstring \<Rightarrow> jsstring \<Rightarrow> nat" where
  "sharedTokenCount a b =
     (if a = [] \<or> b = [] then 0
      else countShared (newSet (tokenize a)) (newSet (tokenize b)) 0)"

text \<open>
  The tokens in the words of the specification: the text is lower-cased, every
  character other than \<open>a\<close>..\<open>z\<close> and \<open>0\<close>..\<open>9\<close> separates, and the tokens are the maximal
  runs of the remaining characters that are longer than two.
\<close>

definition isTokenChar :: "jschar \<Rightarrow> bool" where
  "isTokenChar c \<longleftrightarrow> isLowerAZ c \<or> isDigit c"

definition notTokenChar :: "jschar \<Rightarrow> bool" where
  "notTokenChar c \<longleftrightarrow> \<not> isTokenChar c"

function maximalRuns :: "('a \<Rightarrow> bool) \<Rightarrow> 'a list \<Rightarrow> 'a list list" where
  "maximalRuns P s =
     (case dropWhile (\<lambda>c. \<not> P c) s of
        [] \<Rightarrow> []
      | c # rest \<Rightarrow> takeWhile P (c # rest) # maximalRuns P (dropWhile P rest))"
  by pat_completeness auto
termination
proof (relation "measure (\<lambda>(P, s). length s)")
  fix P :: "'a \<Rightarrow> bool" and s :: "'a list" and c rest
  assume "dropWhile (\<lambda>c. \<not> P c) s = c # rest"
  then have "length (c # rest) \<le> length s"
    by (metis length_dropWhile_le)
  moreover have "length (dropWhile P rest) \<le> length rest"
    by (rule length_dropWhile_le)
  ultimately show "((P, dropWhile P rest), (P, s)) \<in> measure (\<lambda>(P, s). length s)"
    by simp
qed simp

declare maximalRuns.simps [simp del]

definition specTokens :: "jsstring \<Rightarrow> jsstring set" where
  "specTokens s = {t. t \<in> set (maximalRuns isTokenChar (toLowerCase s)) \<and> length t > 2}"

section \<open>Warm introduction paths\<close>

record SearchPersonResult =
  name :: jsstring
  headline :: jsstring
  location :: jsstring
  connectionDegree :: jsstring
  profileUrl :: jsstring

text \<open>\<open>MutualConnectionResult\<close> has the same five fields.\<close>

type_synonym MutualConnectionResult = SearchPersonResult

record WarmIntroTargetContext =
  t_profileUrl :: jsstring
  t_name :: jsstring
  t_headline :: jsstring
  t_location :: jsstring

record WarmIntroPathResult =
  score :: int
  rationale :: "jsstring list"
  sourceProfileUrl :: jsstring
  via :: MutualConnectionResult
  targetProfileUrl :: jsstring
  targetName :: jsstring
  path :: "jsstring list"

text \<open>
  The body of the \<open>mutuals.map\<close> callback of \<open>buildWarmIntroPathsFromMutuals\<close>. The two
  local variables \<open>score\<close> and \<open>rationale\<close> are threaded through the four steps as a pair.
\<close>

definition degreeStep :: "MutualConnectionResult \<Rightarrow> int \<times> jsstring list \<Rightarrow> int \<times> jsstring list" where
  "degreeStep mutual st =
     (if startsWith (connectionDegree mutual) (jsstr ''1'')
      then (fst st + 30, snd st @ [jsstr ''Mutual appears as a first-degree connection.''])
      else if startsWith (connectionDegree mutual) (jsstr ''2'')
      then (fst st + 15, snd st @ [jsstr ''Mutual appears as a second-degree connection.''])
      else (fst st, snd st @ [jsstr ''Connection degree is not explicit.'']))"

definition headlineStep ::
  "WarmIntroTargetContext \<Rightarrow> MutualConnectionResult \<Rightarrow> int \<times> jsstring list \<Rightarrow> int \<times> jsstring list" where
  "headlineStep target mutual st =
     (let sharedHeadline = sharedTokenCount (headline mutual) (t_headline target)
      in if sharedHeadline > 0
         then (let bonus = min 20 (int sharedHeadline * 4)
               in (fst st + bonus,
                   snd st @ [jsstr ''Shared headline context tokens: '' @ numToString sharedHeadline @ jsstr ''.'']))
         else st)"

definition locationStep ::
  "WarmIntroTargetContext \<Rightarrow> MutualConnectionResult \<Rightarrow> int \<times> jsstring list \<Rightarrow> int \<times> jsstring list" where
  "locationStep target mutual st =
     (let sharedLocation = sharedTokenCount (location mutual) (t_location target)
      in if sharedLocation > 0
         then (let bonus = min 15 (int sharedLocation * 5)
               in (fst st + bonus,
                   snd st @ [jsstr ''Shared location context tokens: '' @ numToString sharedLocation @ jsstr ''.'']))
         else st)"

definition penaltyStep :: "MutualConnectionResult \<Rightarrow> int \<times> jsstring list \<Rightarrow> int \<times> jsstring list" where
  "penaltyStep mutual st =
     (if headline mutual = []
      then (fst st - 5, snd st @ [jsstr ''Limited headline context available.''])
      else st)"

definition scoreMutual ::
  "jsstring \<Rightarrow> WarmIntroTargetContext \<Rightarrow> MutualConnectionResult \<Rightarrow> WarmIntroPathResult" where
  "scoreMutual source target mutual =
     (let st = penaltyStep mutual
                 (locationStep target mutual
                   (headlineStep target mutual
                     (degreeStep mutual (40, []))))
      in \<lparr> score = fst st,
           rationale = snd st,
           sourceProfileUrl = source,
           via = mutual,
           targetProfileUrl = t_profileUrl target,
           targetName = t_name target,
           path = [source, profileUrl mutual, t_profileUrl target] \<rparr>)"

text \<open>
  \<open>scored.sort(cmp)\<close>. The language standard makes \<open>Array.prototype.sort\<close> a stable sort;
  for a comparator that is a consistent ordering the result is the one stable sorted
  arrangement, computed here by insertion from the right: an element goes in front of
  the first element it does not come after, so it stays in front of its equals that
  followed it in the input.
\<close>

fun insertSorted :: "('a \<Rightarrow> 'a \<Rightarrow> int) \<Rightarrow> 'a \<Rightarrow> 'a list \<Rightarrow> 'a list" where
  "insertSorted cmp x [] = [x]"
| "insertSorted cmp x (y # ys) =
     (if cmp x y \<le> 0 then x # y # ys else y # insertSorted cmp x ys)"

fun arraySort :: "('a \<Rightarrow> 'a \<Rightarrow> int) \<Rightarrow> 'a list \<Rightarrow> 'a list" where
  "arraySort cmp [] = []"
| "arraySort cmp (x # xs) = insertSorted cmp x (arraySort cmp xs)"

text \<open>
  The comparator \<^verbatim>\<open>b.score - a.score || a.via.name.localeCompare(b.via.name)\<close>.
  \<open>localeCompare\<close> is the collation of the runtime's locale; it is a parameter of the
  model.
\<close>

definition comparePaths ::
  "(jsstring \<Rightarrow> jsstring \<Rightarrow> int) \<Rightarrow> WarmIntroPathResult \<Rightarrow> WarmIntroPathResult \<Rightarrow> int" where
  "comparePaths localeCompare a b =
     (if score b - score a \<noteq> 0 then score b - score a
      else localeCompare (name (via a)) (name (via b)))"

definition buildWarmIntroPathsFromMutuals ::
  "(jsstring \<Rightarrow> jsstring \<Rightarrow> int) \<Rightarrow> jsstring \<Rightarrow> WarmIntroTargetContext \<Rightarrow>
   MutualConnectionResult list \<Rightarrow> WarmIntroPathResult list" where
  "buildWarmIntroPathsFromMutuals localeCompare source target mutuals =
     (let scored = map (scoreMutual source target) mutuals
      in arraySort (comparePaths localeCompare) scored)"

text \<open>
  A collation used where a concrete one is needed: the comparison of the code units,
  the order that \<open>localeCompare\<close> has on strings of one letter case and no accents.
\<close>

fun codeUnitCompare :: "jsstring \<Rightarrow> jsstring \<Rightarrow> int" where
  "codeUnitCompare [] [] = 0"
| "codeUnitCompare [] (y # ys) = - 1"
| "codeUnitCompare (x # xs) [] = 1"
| "codeUnitCompare (x # xs) (y # ys) =
     (if x < y then - 1 else if y < x then 1 else codeUnitCompare xs ys)"

text \<open>The ranking example of the specification, with the names and links of the repository's test.\<close>

definition exSource :: jsstring where
  "exSource = jsstr ''https://www.linkedin.com/in/me/''"

definition exTarget :: WarmIntroTargetContext where
  "exTarget = \<lparr> t_profileUrl = jsstr ''https://www.linkedin.com/in/target/'',
                 t_name = jsstr ''Target Person'',
                 t_headline = jsstr ''Partner at Alpha Ventures'',
                 t_location = jsstr ''San Francisco Bay Area'' \<rparr>"

definition exMutualA :: MutualConnectionResult where
  "exMutualA = \<lparr> name = jsstr ''Mutual Low'', headline = jsstr ''Designer'',
                  location = jsstr ''Austin, Texas'', connectionDegree = jsstr ''2nd'',
                  profileUrl = jsstr ''https://www.linkedin.com/in/mutual-low/'' \<rparr>"

definition exMutualB :: MutualConnectionResult where
  "exMutualB = \<lparr> name = jsstr ''Mutual High'', headline = jsstr ''Partner at Alpha Ventures'',
                  location = jsstr ''San Francisco, California, United States'',
                  connectionDegree = jsstr ''1st'',
                  profileUrl = jsstr ''https://www.linkedin.com/in/mutual-high/'' \<rparr>"

text \<open>Two mutuals that score alike, for the tie on the name.\<close>

definition exMutualBob :: MutualConnectionResult where
  "exMutualBob = \<lparr> name = jsstr ''Bob'', headline = jsstr ''Designer'',
                    location = jsstr ''Austin, Texas'', connectionDegree = jsstr ''2nd'',
                    profileUrl = jsstr ''https://www.linkedin.com/in/bob/'' \<rparr>"

definition exMutualAl :: MutualConnectionResult where
  "exMutualAl = \<lparr> name = jsstr ''Al'', headline = jsstr ''Engineer'',
                   location = jsstr ''Boston'', connectionDegree = jsstr ''2nd'',
                   profileUrl = jsstr ''https://www.linkedin.com/in/al/'' \<rparr>"

section \<open>Regular expression search\<close>

text \<open>
  \<open>s.match(re)\<close>, \<open>re.test(s)\<close> and \<open>s.replace(re, ...)\<close> without the \<open>g\<close> flag find the
  leftmost match: the pattern is tried at the start positions 0, 1, ... up to the end
  of the string, and the first position where it matches wins. A pattern is modelled by
  a function that says whether it matches at the current position, given the code unit
  before the position (none at the start of the string; \<open>^\<close> and \<open>\b\<close> look at it) and
  the rest of the string from the position on.
\<close>

fun searchFrom :: "(jschar option \<Rightarrow> jsstring \<Rightarrow> 'a option) \<Rightarrow> jschar option \<Rightarrow> jsstring \<Rightarrow> 'a option" where
  "searchFrom m prev [] = m prev []"
| "searchFrom m prev (c # cs) =
     (case m prev (c # cs) of Some r \<Rightarrow> Some r | None \<Rightarrow> searchFrom m (Some c) cs)"

text \<open>The code unit before position \<open>i\<close> of a search that started behind \<open>prev\<close>.\<close>

definition prevFrom :: "jschar option \<Rightarrow> jsstring \<Rightarrow> nat \<Rightarrow> jschar option" where
  "prevFrom prev s i = (if i = 0 then prev else Some (s ! (i - 1)))"

definition regexSearch :: "(jschar option \<Rightarrow> jsstring \<Rightarrow> 'a option) \<Rightarrow> jsstring \<Rightarrow> 'a option" where
  "regexSearch m s = searchFrom m None s"

definition isAsciiLetter :: "jschar \<Rightarrow> bool" where
  "isAsciiLetter c \<longleftrightarrow> isUpperAZ c \<or> isLowerAZ c"

text \<open>The class \<open>\w\<close>, and \<open>\b\<close> in front of a word character.\<close>

definition isWordChar :: "jschar \<Rightarrow> bool" where
  "isWordChar c \<longleftrightarrow> isAsciiLetter c \<or> isDigit c \<or> c = 95"

definition boundaryBefore :: "jschar option \<Rightarrow> bool" where
  "boundaryBefore prev = (case prev of None \<Rightarrow> True | Some p \<Rightarrow> \<not> isWordChar p)"

definition boundaryAfter :: "jsstring \<Rightarrow> bool" where
  "boundaryAfter r = (case r of [] \<Rightarrow> True | c # _ \<Rightarrow> \<not> isWordChar c)"

section \<open>Degree inference\<close>

definition is123 :: "jschar \<Rightarrow> bool" where
  "is123 c \<longleftrightarrow> c = 49 \<or> c = 50 \<or> c = 51"

text \<open>\<open>(?:st|nd|rd)\<close> under the flag \<open>i\<close>.\<close>

definition isOrdinalSuffix :: "jschar \<Rightarrow> jschar \<Rightarrow> bool" where
  "isOrdinalSuffix a b \<longleftrightarrow>
     eqCI [a, b] (jsstr ''st'') \<or> eqCI [a, b] (jsstr ''nd'') \<or> eqCI [a, b] (jsstr ''rd'')"

text \<open>
  The lookahead \<open>(?=\s|$|[A-Z])\<close>. The expression has the flag \<open>i\<close>, under which the
  class \<open>[A-Z]\<close> takes the ASCII letters of both cases.
\<close>

definition lookaheadShort :: "jsstring \<Rightarrow> bool" where
  "lookaheadShort r = (case r of [] \<Rightarrow> True | c # _ \<Rightarrow> isSpaceJS c \<or> isAsciiLetter c)"

text \<open>
  \<^verbatim>\<open>/([123](?:st|nd|rd)\+?)(?=\s|$|[A-Z])/i\<close> at one position; the result is group 1.
  The greedy \<open>\+?\<close> first takes a plus sign and gives it back when the lookahead fails
  behind it.
\<close>

fun shortOrdinalAt :: "jschar option \<Rightarrow> jsstring \<Rightarrow> jsstring option" where
  "shortOrdinalAt prev (d # a # b # rest) =
     (if is123 d \<and> isOrdinalSuffix a b
      then (if startsWith rest (jsstr ''+'') \<and> lookaheadShort (drop 1 rest) then Some [d, a, b, 43]
            else if lookaheadShort rest then Some [d, a, b]
            else None)
      else None)"
| "shortOrdinalAt prev r = None"

text \<open>\<open>\s+degree\b\<close> under the flag \<open>i\<close>.\<close>

definition degreeTail :: "jsstring \<Rightarrow> bool" where
  "degreeTail r \<longleftrightarrow>
     takeWhile isSpaceJS r \<noteq> [] \<and>
     startsWithCI (dropWhile isSpaceJS r) (jsstr ''degree'') \<and>
     boundaryAfter (drop 6 (dropWhile isSpaceJS r))"

text \<open>\<^verbatim>\<open>/\b([123](?:st|nd|rd))\s+degree\b/i\<close> at one position.\<close>

fun ordinalDegreeAt :: "jschar option \<Rightarrow> jsstring \<Rightarrow> jsstring option" where
  "ordinalDegreeAt prev (d # a # b # rest) =
     (if boundaryBefore prev \<and> is123 d \<and> isOrdinalSuffix a b \<and> degreeTail rest
      then Some [d, a, b] else None)"
| "ordinalDegreeAt prev r = None"

text \<open>\<^verbatim>\<open>/\b([123])\s+degree\b/i\<close> at one position.\<close>

fun digitDegreeAt :: "jschar option \<Rightarrow> jsstring \<Rightarrow> jsstring option" where
  "digitDegreeAt prev (d # rest) =
     (if boundaryBefore prev \<and> is123 d \<and> degreeTail rest then Some [d] else None)"
| "digitDegreeAt prev [] = None"

definition inferDegree :: "jsstring \<Rightarrow> jsstring" where
  "inferDegree raw =
     (case regexSearch shortOrdinalAt raw of
        Some group1 \<Rightarrow>
          (let normalized = toLowerCase group1
           in if startsWith normalized (jsstr ''1'') then jsstr ''1st''
              else if startsWith normalized (jsstr ''2'') then jsstr ''2nd''
              else jsstr ''3rd'')
      | None \<Rightarrow>
          (case regexSearch ordinalDegreeAt raw of
             Some group1 \<Rightarrow> toLowerCase group1
           | None \<Rightarrow>
               (case regexSearch digitDegreeAt raw of
                  None \<Rightarrow> jsstr ''unknown''
                | Some degree \<Rightarrow>
                    if degree = jsstr ''1'' then jsstr ''1st''
                    else if degree = jsstr ''2'' then jsstr ''2nd''
                    else jsstr ''3rd'')))"

text \<open>
  Rule (1) in the words of the claim: the short ordinal is followed by white space, by
  the end of the text, or by an upper-case letter, and by no lower-case letter.
\<close>

definition claimedLookahead :: "jsstring \<Rightarrow> bool" where
  "claimedLookahead r = (case r of [] \<Rightarrow> True | c # _ \<Rightarrow> isSpaceJS c \<or> isUpperAZ c)"

fun claimedShortOrdinalAt :: "jschar option \<Rightarrow> jsstring \<Rightarrow> jsstring option" where
  "claimedShortOrdinalAt prev (d # a # b # rest) =
     (if is123 d \<and> isOrdinalSuffix a b
      then (if startsWith rest (jsstr ''+'') \<and> claimedLookahead (drop 1 rest) then Some [d, a, b, 43]
            else if claimedLookahead rest then Some [d, a, b]
            else None)
      else None)"
| "claimedShortOrdinalAt prev r = None"

text \<open>
  The positions of the text, for the statement of the precedence: the code unit before
  position \<open>i\<close>, and the positions where a rule matches.
\<close>

definition prevAt :: "jsstring \<Rightarrow> nat \<Rightarrow> jschar option" where
  "prevAt s i = (if i = 0 then None else Some (s ! (i - 1)))"

definition matchesAt :: "(jschar option \<Rightarrow> jsstring \<Rightarrow> 'a option) \<Rightarrow> jsstring \<Rightarrow> nat \<Rightarrow> bool" where
  "matchesAt m s i \<longleftrightarrow> i \<le> length s \<and> m (prevAt s i) (drop i s) \<noteq> None"

definition degreeOfDigit :: "jschar \<Rightarrow> jsstring" where
  "degreeOfDigit d = (if d = 49 then jsstr ''1st'' else if d = 50 then jsstr ''2nd'' else jsstr ''3rd'')"

section \<open>Card text\<close>

record ParsedCardText =
  p_name :: jsstring
  p_headline :: jsstring
  p_location :: jsstring

text \<open>\<open>s.split(sep)\<close> for a separator of one code unit.\<close>

function splitOn :: "jschar \<Rightarrow> jsstring \<Rightarrow> jsstring list" where
  "splitOn sep s =
     (case dropWhile (\<lambda>c. c \<noteq> sep) s of
        [] \<Rightarrow> [s]
      | c # rest \<Rightarrow> takeWhile (\<lambda>c. c \<noteq> sep) s # splitOn sep rest)"
  by pat_completeness auto
termination
proof (relation "measure (\<lambda>(sep, s). length s)")
  fix sep :: jschar and s :: jsstring and c rest
  assume "dropWhile (\<lambda>c. c \<noteq> sep) s = c # rest"
  then have "length (c # rest) \<le> length s"
    by (metis length_dropWhile_le)
  then show "((sep, rest), (sep, s)) \<in> measure (\<lambda>(sep, s). length s)"
    by simp
qed simp

declare splitOn.simps [simp del]

text \<open>\<open>line.replace(/\s+/g, " ")\<close>: every maximal run of white space becomes one space.\<close>

function collapseWs :: "jsstring \<Rightarrow> jsstring" where
  "collapseWs [] = []"
| "collapseWs (c # cs) =
     (if isSpaceJS c then 32 # collapseWs (dropWhile isSpaceJS cs) else c # collapseWs cs)"
  by pat_completeness auto
termination
  by (relation "measure length") (auto simp: less_Suc_eq_le length_dropWhile_le)

definition noisePrefixes :: "jsstring list" where
  "noisePrefixes =
     [jsstr ''past:'', jsstr ''current:'', jsstr ''mutual'', jsstr ''shared'', jsstr ''see all'',
      jsstr ''show all'', jsstr ''view'', jsstr ''message'', jsstr ''follow'', jsstr ''connect'',
      jsstr ''pending'']"

definition isNoise :: "jsstring \<Rightarrow> bool" where
  "isNoise v =
     (let lower = toLowerCase v
      in if lower = [8226] then True
         else list_ex (\<lambda>prefix. startsWith lower prefix) noisePrefixes)"

text \<open>\<open>.replace(/^\u2022\s*/, "")\<close>\<close>

definition stripLeadingBullet :: "jsstring \<Rightarrow> jsstring" where
  "stripLeadingBullet s =
     (case s of [] \<Rightarrow> [] | c # cs \<Rightarrow> if c = 8226 then dropWhile isSpaceJS cs else s)"

text \<open>\<open>(?:1st|2nd|3rd\+?)\<close> under the flag \<open>i\<close>, as the whole of a string.\<close>

definition isDegreeMarker :: "jsstring \<Rightarrow> bool" where
  "isDegreeMarker r \<longleftrightarrow>
     eqCI r (jsstr ''1st'') \<or> eqCI r (jsstr ''2nd'') \<or> eqCI r (jsstr ''3rd'') \<or> eqCI r (jsstr ''3rd+'')"

text \<open>
  \<^verbatim>\<open>.replace(/\s*[\u2022\u00B7]?\s*(?:1st|2nd|3rd\+?)$/i, "")\<close>. The pattern ends at the
  end of the string, so it matches at a position when the whole rest of the string has
  its form: white space, at most one bullet or middle dot, white space, the marker. The
  first position where that holds starts the match, and the match is removed.
\<close>

definition trailingMarkerTail :: "jsstring \<Rightarrow> bool" where
  "trailingMarkerTail r \<longleftrightarrow>
     isDegreeMarker (dropWhile isSpaceJS r) \<or>
     (case dropWhile isSpaceJS r of
        [] \<Rightarrow> False
      | c # r2 \<Rightarrow> (c = 8226 \<or> c = 183) \<and> isDegreeMarker (dropWhile isSpaceJS r2))"

fun stripTrailingMarker :: "jsstring \<Rightarrow> jsstring" where
  "stripTrailingMarker [] = []"
| "stripTrailingMarker (c # cs) =
     (if trailingMarkerTail (c # cs) then [] else c # stripTrailingMarker cs)"

text \<open>
  \<^verbatim>\<open>/(?:^| )(?:1st|2nd|3rd\+?)(?:$| )/i.test(line)\<close>: at the start of the line or
  behind a space, a marker that the end of the line or a space follows.
\<close>

definition endOrSpace :: "jsstring \<Rightarrow> bool" where
  "endOrSpace r = (case r of [] \<Rightarrow> True | c # _ \<Rightarrow> c = 32)"

definition markerThenEnd :: "jsstring \<Rightarrow> bool" where
  "markerThenEnd r \<longleftrightarrow>
     (startsWithCI r (jsstr ''1st'') \<and> endOrSpace (drop 3 r)) \<or>
     (startsWithCI r (jsstr ''2nd'') \<and> endOrSpace (drop 3 r)) \<or>
     (startsWithCI r (jsstr ''3rd'') \<and>
        ((startsWith (drop 3 r) (jsstr ''+'') \<and> endOrSpace (drop 4 r)) \<or> endOrSpace (drop 3 r)))"

definition markerTokenAt :: "jschar option \<Rightarrow> jsstring \<Rightarrow> unit option" where
  "markerTokenAt prev r =
     (if (prev = None \<and> markerThenEnd r) \<or>
         (case r of [] \<Rightarrow> False | c # cs \<Rightarrow> c = 32 \<and> markerThenEnd cs)
      then Some () else None)"

definition hasMarkerToken :: "jsstring \<Rightarrow> bool" where
  "hasMarkerToken line \<longleftrightarrow> regexSearch markerTokenAt line \<noteq> None"

definition cardLines :: "jsstring \<Rightarrow> jsstring list" where
  "cardLines raw = filter (\<lambda>line. line \<noteq> []) (map (\<lambda>line. trim (collapseWs line)) (splitOn 10 raw))"

definition parseSearchCardText :: "jsstring \<Rightarrow> ParsedCardText" where
  "parseSearchCardText raw =
     (case cardLines raw of
        [] \<Rightarrow> \<lparr> p_name = [], p_headline = [], p_location = [] \<rparr>
      | line0 # others \<Rightarrow>
          (let name' = trim (stripTrailingMarker (stripLeadingBullet line0));
               candidateDetails =
                 filter (\<lambda>line. if startsWith line [8226] then False
                                 else if hasMarkerToken line then False
                                 else \<not> isNoise line) others;
               headline' = (case candidateDetails of [] \<Rightarrow> [] | h # _ \<Rightarrow> h);
               location' = (case drop 1 candidateDetails of [] \<Rightarrow> [] | l # _ \<Rightarrow> l)
           in \<lparr> p_name = name', p_headline = headline', p_location = location' \<rparr>))"

text \<open>The line filter in the words of the claim, on the words of a line (its pieces between spaces).\<close>

definition hasMarkerWord :: "jsstring \<Rightarrow> bool" where
  "hasMarkerWord line \<longleftrightarrow> list_ex isDegreeMarker (splitOn 32 line)"

definition hasNoisePrefix :: "jsstring \<Rightarrow> bool" where
  "hasNoisePrefix line \<longleftrightarrow> list_ex (\<lambda>prefix. startsWith (toLowerCase line) prefix) noisePrefixes"

definition isOnlyDegreeMarker :: "jsstring \<Rightarrow> bool" where
  "isOnlyDegreeMarker line \<longleftrightarrow> isDegreeMarker line"

definition exBulletCard :: jsstring where
  "exBulletCard =
     [8226, 32] @ jsstr ''Jane  Doe '' @ [183] @ jsstr '' 2nd'' @ [10, 10] @ jsstr ''Engineer'' @ [10]
     @ jsstr ''View profile'' @ [10] @ jsstr ''3rd+'' @ [10] @ jsstr ''Austin''"

definition exCardText :: jsstring where
  "exCardText = jsstr ''Jane Doe'' @ [10] @ jsstr ''Our 1st hire'' @ [10] @ jsstr ''Austin, Texas''"

text \<open>
  The three rules as the amended claim words them, by positions of the text: a short
  ordinal at position \<open>i\<close> that white space, the end of the text or an ASCII letter of
  either case follows (a plus sign may stand in between); an ordinal with a degree
  phrase; a digit with a degree phrase.
\<close>

definition followedByBreakOrLetter :: "jsstring \<Rightarrow> bool" where
  "followedByBreakOrLetter r \<longleftrightarrow> r = [] \<or> isSpaceJS (hd r) \<or> isAsciiLetter (hd r)"

definition shortOrdinalOccurs :: "jsstring \<Rightarrow> nat \<Rightarrow> bool" where
  "shortOrdinalOccurs raw i \<longleftrightarrow>
     i + 3 \<le> length raw \<and> is123 (raw ! i) \<and> isOrdinalSuffix (raw ! (i + 1)) (raw ! (i + 2)) \<and>
     (followedByBreakOrLetter (drop (i + 3) raw) \<or>
      (i + 3 < length raw \<and> raw ! (i + 3) = 43 \<and> followedByBreakOrLetter (drop (i + 4) raw)))"

definition startsWord :: "jsstring \<Rightarrow> nat \<Rightarrow> bool" where
  "startsWord raw i \<longleftrightarrow> i = 0 \<or> \<not> isWordChar (raw ! (i - 1))"

definition ordinalDegreeOccurs :: "jsstring \<Rightarrow> nat \<Rightarrow> bool" where
  "ordinalDegreeOccurs raw i \<longleftrightarrow>
     i + 3 \<le> length raw \<and> startsWord raw i \<and> is123 (raw ! i) \<and>
     isOrdinalSuffix (raw ! (i + 1)) (raw ! (i + 2)) \<and> degreeTail (drop (i + 3) raw)"

definition digitDegreeOccurs :: "jsstring \<Rightarrow> nat \<Rightarrow> bool" where
  "digitDegreeOccurs raw i \<longleftrightarrow>
     i + 1 \<le> length raw \<and> startsWord raw i \<and> is123 (raw ! i) \<and> degreeTail (drop (i + 1) raw)"

text \<open>
  The whole function in the words of the claim, with the claim's rule (1) in the first
  place.
\<close>

definition claimedInferDegree :: "jsstring \<Rightarrow> jsstring" where
  "claimedInferDegree raw =
     (case regexSearch claimedShortOrdinalAt raw of
        Some group1 \<Rightarrow> degreeOfDigit (hd group1)
      | None \<Rightarrow>
          (case regexSearch ordinalDegreeAt raw of
             Some group1 \<Rightarrow> degreeOfDigit (hd group1)
           | None \<Rightarrow>
               (case regexSearch digitDegreeAt raw of
                  None \<Rightarrow> jsstr ''unknown''
                | Some degree \<Rightarrow> degreeOfDigit (hd degree))))"

definition exDegreeText :: jsstring where
  "exDegreeText = jsstr ''Jane Doe 2nd degree connection''"

definition exLowercaseFollows :: jsstring where
  "exLowercaseFollows = jsstr ''Editor at 21stcentury media''"

section \<open>URLs\<close>

text \<open>
  \<open>new URL(input, base)\<close> is the runtime's parser. The source reads three things from
  a parsed URL: \<open>hostname\<close>, \<open>pathname\<close>, and the serialisation \<open>toString()\<close> after the
  query and the fragment have been cleared (\<open>url.search = ""\<close>, \<open>url.hash = ""\<close>), which
  is the serialised scheme and authority followed by the path. The record keeps these.
\<close>

record url =
  hrefOrigin :: jsstring
  hostname :: jsstring
  pathname :: jsstring

text \<open>A parser takes the input and the optional base, and fails with \<open>None\<close> (a \<open>TypeError\<close>).\<close>

type_synonym urlParser = "jsstring \<Rightarrow> jsstring option \<Rightarrow> url option"

definition linkedinBase :: jsstring where
  "linkedinBase = jsstr ''https://www.linkedin.com''"

subsection \<open>The parser of the URL standard, on plain http(s) URLs\<close>

text \<open>
  The model follows the state machine of the URL standard for the inputs that the
  standard treats without host conversion and without character encodings: no base or
  the base \<open>https://www.linkedin.com\<close>; no scheme or the scheme http or https; an
  authority that is a plain domain (labels of ASCII letters, digits and hyphens, none
  empty and none starting with \<open>xn--\<close>, the last one starting with a letter; no
  credentials, no port); a path of ASCII characters without the circumflex. Wherever
  an input leaves these bounds the result is what the parameter \<open>ext\<close> gives: \<open>ext\<close>
  stands for the runtime on those inputs, and the theorems hold for every \<open>ext\<close>.
\<close>

definition isC0OrSpace :: "jschar \<Rightarrow> bool" where
  "isC0OrSpace c \<longleftrightarrow> c \<le> 32"

definition isTabOrNewline :: "jschar \<Rightarrow> bool" where
  "isTabOrNewline c \<longleftrightarrow> c = 9 \<or> c = 10 \<or> c = 13"

text \<open>Leading and trailing C0 controls and spaces go, then every tab and newline.\<close>

definition urlPreprocess :: "jsstring \<Rightarrow> jsstring" where
  "urlPreprocess s =
     filter (\<lambda>c. \<not> isTabOrNewline c)
       (rev (dropWhile isC0OrSpace (rev (dropWhile isC0OrSpace s))))"

definition isSchemeChar :: "jschar \<Rightarrow> bool" where
  "isSchemeChar c \<longleftrightarrow> isAsciiLetter c \<or> isDigit c \<or> c = 43 \<or> c = 45 \<or> c = 46"

text \<open>
  Scheme start state and scheme state: a letter, then letters, digits, plus, hyphen
  and dot up to a colon give the lower-cased scheme and the rest; anything else is an
  input without scheme.
\<close>

definition splitScheme :: "jsstring \<Rightarrow> (jsstring \<times> jsstring) option" where
  "splitScheme s =
     (case s of
        [] \<Rightarrow> None
      | c # cs \<Rightarrow>
          if isAsciiLetter c
          then (case dropWhile isSchemeChar s of
                  [] \<Rightarrow> None
                | d # rest \<Rightarrow>
                    if d = 58 then Some (map foldAscii (takeWhile isSchemeChar s), rest) else None)
          else None)"

definition isSlash :: "jschar \<Rightarrow> bool" where
  "isSlash c \<longleftrightarrow> c = 47 \<or> c = 92"

definition isPathEnd :: "jschar \<Rightarrow> bool" where
  "isPathEnd c \<longleftrightarrow> c = 63 \<or> c = 35"

definition isAuthorityEnd :: "jschar \<Rightarrow> bool" where
  "isAuthorityEnd c \<longleftrightarrow> isSlash c \<or> isPathEnd c"

definition isLDH :: "jschar \<Rightarrow> bool" where
  "isLDH c \<longleftrightarrow> isAsciiLetter c \<or> isDigit c \<or> c = 45"

definition plainLabel :: "jsstring \<Rightarrow> bool" where
  "plainLabel l \<longleftrightarrow> l \<noteq> [] \<and> list_all isLDH l \<and> \<not> startsWithCI l (jsstr ''xn--'')"

definition plainHost :: "jsstring \<Rightarrow> bool" where
  "plainHost h \<longleftrightarrow>
     list_all plainLabel (splitOn 46 h) \<and>
     (case last (splitOn 46 h) of [] \<Rightarrow> False | c # _ \<Rightarrow> isAsciiLetter c)"

text \<open>The path percent-encode set within ASCII (the circumflex is outside the model).\<close>

definition isPathEncode :: "jschar \<Rightarrow> bool" where
  "isPathEncode c \<longleftrightarrow>
     c \<le> 32 \<or> c = 34 \<or> c = 35 \<or> c = 60 \<or> c = 62 \<or> c = 63 \<or> c = 96 \<or> c = 123 \<or> c = 125 \<or> 127 \<le> c"

definition hexDigit :: "nat \<Rightarrow> jschar" where
  "hexDigit n = (if n < 10 then 48 + n else 55 + n)"

definition percentEncodeUnit :: "jschar \<Rightarrow> jsstring" where
  "percentEncodeUnit c =
     (if isPathEncode c then [37, hexDigit (c div 16), hexDigit (c mod 16)] else [c])"

definition percentEncodePath :: "jsstring \<Rightarrow> jsstring" where
  "percentEncodePath seg = concat (map percentEncodeUnit seg)"

definition isSingleDot :: "jsstring \<Rightarrow> bool" where
  "isSingleDot seg \<longleftrightarrow> seg = jsstr ''.'' \<or> eqCI seg (jsstr ''%2e'')"

definition isDoubleDot :: "jsstring \<Rightarrow> bool" where
  "isDoubleDot seg \<longleftrightarrow>
     seg = jsstr ''..'' \<or> eqCI seg (jsstr ''.%2e'') \<or> eqCI seg (jsstr ''%2e.'') \<or>
     eqCI seg (jsstr ''%2e%2e'')"

text \<open>
  Path state, one segment at a time: a double-dot segment removes the last segment of
  the path so far, a single-dot segment adds nothing, and either leaves an empty last
  segment when it ends the path; any other segment is added, percent-encoded.
\<close>

fun pathSegments :: "jsstring list \<Rightarrow> jsstring list \<Rightarrow> jsstring list" where
  "pathSegments acc [] = acc"
| "pathSegments acc (seg # rest) =
     (if isDoubleDot (percentEncodePath seg)
      then pathSegments (butlast acc @ (if rest = [] then [[]] else [])) rest
      else if isSingleDot (percentEncodePath seg)
      then pathSegments (acc @ (if rest = [] then [[]] else [])) rest
      else pathSegments (acc @ [percentEncodePath seg]) rest)"

text \<open>
  The path state reads up to the question mark or number sign; in a special URL the
  backslash separates segments like the slash.
\<close>

definition pathPart :: "jsstring \<Rightarrow> jsstring" where
  "pathPart ps = takeWhile (\<lambda>c. \<not> isPathEnd c) ps"

definition pathState :: "jsstring \<Rightarrow> jsstring list" where
  "pathState ps =
     pathSegments [] (splitOn 47 (map (\<lambda>c. if c = 92 then 47 else c) (pathPart ps)))"

definition serializePath :: "jsstring list \<Rightarrow> jsstring" where
  "serializePath segs = concat (map (\<lambda>seg. 47 # seg) segs)"

definition modelledPath :: "jsstring \<Rightarrow> bool" where
  "modelledPath ps \<longleftrightarrow> list_all (\<lambda>c. c < 128 \<and> c \<noteq> 94) (pathPart ps)"

definition specialUrl :: "jsstring \<Rightarrow> jsstring \<Rightarrow> jsstring \<Rightarrow> url" where
  "specialUrl sch host ps =
     \<lparr> hrefOrigin = sch @ jsstr ''://'' @ host, hostname = host,
       pathname = serializePath (pathState ps) \<rparr>"

text \<open>
  Authority state, host state and path start state. An empty authority is a failure.
  The path start state takes the slash that ends the authority.
\<close>

definition afterAuthority :: "jsstring \<Rightarrow> jsstring" where
  "afterAuthority a =
     (case dropWhile (\<lambda>c. \<not> isAuthorityEnd c) a of
        [] \<Rightarrow> []
      | c # r \<Rightarrow> if isSlash c then r else c # r)"

definition authorityState :: "urlParser \<Rightarrow> jsstring \<Rightarrow> jsstring option \<Rightarrow> jsstring \<Rightarrow> jsstring \<Rightarrow> url option" where
  "authorityState ext input base sch a =
     (let auth = takeWhile (\<lambda>c. \<not> isAuthorityEnd c) a
      in if auth = [] then None
         else if plainHost auth \<and> modelledPath (afterAuthority a)
         then Some (specialUrl sch (map foldAscii auth) (afterAuthority a))
         else ext input base)"

text \<open>
  Relative state and relative slash state against the base \<open>https://www.linkedin.com\<close>,
  whose path is the single empty segment: the scheme and the host are the base's, and
  the path is built from nothing.
\<close>

definition baseRelative :: "urlParser \<Rightarrow> jsstring \<Rightarrow> jsstring option \<Rightarrow> jsstring \<Rightarrow> url option" where
  "baseRelative ext input base ps =
     (if modelledPath ps
      then Some (specialUrl (jsstr ''https'') (jsstr ''www.linkedin.com'') ps)
      else ext input base)"

definition relativeState :: "urlParser \<Rightarrow> jsstring \<Rightarrow> jsstring option \<Rightarrow> jsstring \<Rightarrow> url option" where
  "relativeState ext input base s =
     (case s of
        [] \<Rightarrow> baseRelative ext input base []
      | c # r \<Rightarrow>
          if isSlash c
          then (case r of
                  [] \<Rightarrow> baseRelative ext input base r
                | d # r' \<Rightarrow>
                    if isSlash d
                    then authorityState ext input base (jsstr ''https'') (dropWhile isSlash r')
                    else baseRelative ext input base r)
          else if isPathEnd c then baseRelative ext input base []
          else baseRelative ext input base s)"

definition whatwgURL :: "urlParser \<Rightarrow> urlParser" where
  "whatwgURL ext input base =
     (if base \<noteq> None \<and> base \<noteq> Some linkedinBase then ext input base
      else (case splitScheme (urlPreprocess input) of
              None \<Rightarrow>
                if base = None then None
                else relativeState ext input base (urlPreprocess input)
            | Some (sch, rest) \<Rightarrow>
                if sch = jsstr ''http'' \<or> sch = jsstr ''https''
                then (if base \<noteq> None \<and> sch = jsstr ''https'' \<and> \<not> startsWith rest (jsstr ''//'')
                      then relativeState ext input base rest
                      else authorityState ext input base sch (dropWhile isSlash rest))
                else ext input base))"

text \<open>A runtime that rejects whatever is outside the model, for closed examples inside it.\<close>

definition noExt :: urlParser where
  "noExt input base = None"

subsection \<open>Errors\<close>

datatype error =
    InvalidUrl jsstring           \<comment> \<open>\<open>Error("Invalid URL: ...")\<close> of the same-site guard\<close>
  | NotLinkedInUrl jsstring       \<comment> \<open>\<open>Error("URL is not a LinkedIn URL: ...")\<close>\<close>
  | ProfileIdEmpty                \<comment> \<open>\<open>Error("Profile id cannot be empty.")\<close>\<close>
  | ProfileUrlFormat              \<comment> \<open>\<open>Error("Profile URL must include /in/<vanity-name>.")\<close>\<close>
  | ActivityIdEmpty               \<comment> \<open>\<open>Error("Activity id cannot be empty.")\<close>\<close>
  | ActivityIdNotNumeric          \<comment> \<open>\<open>Error("Activity id must be numeric or include urn:li:activity:<numeric-id>.")\<close>\<close>
  | TypeErrorInvalidUrl           \<comment> \<open>the \<open>TypeError\<close> that \<open>new URL\<close> throws\<close>
  | InvalidTargetProfileUrl       \<comment> \<open>\<open>Error("Invalid target profile URL.")\<close>\<close>
  | InvalidProfileUrl             \<comment> \<open>\<open>Error("Invalid profile URL.")\<close>\<close>
  | CouldNotResolveOwnProfile     \<comment> \<open>\<open>Error("Could not resolve your LinkedIn profile URL from session.")\<close>\<close>
  | PageError                     \<comment> \<open>a rejected \<open>page.goto\<close> or \<open>page.evaluate\<close>\<close>

text \<open>The errors of \<open>buildPostUrl\<close> that are its own, about the format of the activity id.\<close>

definition isActivityFormatError :: "error \<Rightarrow> bool" where
  "isActivityFormatError e \<longleftrightarrow> e = ActivityIdEmpty \<or> e = ActivityIdNotNumeric"

subsection \<open>The same-site guard\<close>

definition assertLinkedInUrl :: "urlParser \<Rightarrow> jsstring \<Rightarrow> error + unit" where
  "assertLinkedInUrl newURL u =
     (case newURL u None of
        None \<Rightarrow> Inl (InvalidUrl u)
      | Some parsed \<Rightarrow>
          (let host = hostname parsed
           in if host \<noteq> jsstr ''linkedin.com'' \<and> \<not> endsWith host (jsstr ''.linkedin.com'')
              then Inl (NotLinkedInUrl u)
              else Inr ()))"

subsection \<open>Canonical forms\<close>

definition normalizeProfileUrl :: "urlParser \<Rightarrow> jsstring \<Rightarrow> jsstring" where
  "normalizeProfileUrl newURL v =
     (if v = [] then []
      else (case newURL v (Some linkedinBase) of
              None \<Rightarrow> []
            | Some u \<Rightarrow> hrefOrigin u @ pathname u))"

text \<open>\<^verbatim>\<open>url.pathname.match(/^\/in\/([^/?#]+)/i)\<close>, group 1.\<close>

definition isSegmentEnd :: "jschar \<Rightarrow> bool" where
  "isSegmentEnd c \<longleftrightarrow> c = 47 \<or> c = 63 \<or> c = 35"

definition matchInSegment :: "jsstring \<Rightarrow> jsstring option" where
  "matchInSegment p =
     (if startsWithCI p (jsstr ''/in/'') \<and> takeWhile (\<lambda>c. \<not> isSegmentEnd c) (drop 4 p) \<noteq> []
      then Some (takeWhile (\<lambda>c. \<not> isSegmentEnd c) (drop 4 p))
      else None)"

definition toCanonicalProfileUrl :: "urlParser \<Rightarrow> jsstring \<Rightarrow> jsstring" where
  "toCanonicalProfileUrl newURL v =
     (if v = [] then []
      else (case newURL v (Some linkedinBase) of
              None \<Rightarrow> []
            | Some u \<Rightarrow>
                (case matchInSegment (pathname u) of
                   None \<Rightarrow> normalizeProfileUrl newURL v
                 | Some group1 \<Rightarrow> jsstr ''https://www.linkedin.com/in/'' @ group1 @ jsstr ''/'')))"

text \<open>\<^verbatim>\<open>/linkedin\.com\/in\/[^/]+\/?$/i\<close> at one position.\<close>

definition profileTailAt :: "jschar option \<Rightarrow> jsstring \<Rightarrow> unit option" where
  "profileTailAt prev r =
     (if startsWithCI r (jsstr ''linkedin.com/in/'') \<and>
         takeWhile (\<lambda>c. c \<noteq> 47) (drop 16 r) \<noteq> [] \<and>
         (dropWhile (\<lambda>c. c \<noteq> 47) (drop 16 r) = [] \<or> dropWhile (\<lambda>c. c \<noteq> 47) (drop 16 r) = [47])
      then Some () else None)"

text \<open>\<open>.replace(/^\/+/, "").replace(/\/+$/, "")\<close>\<close>

definition stripSlashes :: "jsstring \<Rightarrow> jsstring" where
  "stripSlashes s = rev (dropWhile (\<lambda>c. c = 47) (rev (dropWhile (\<lambda>c. c = 47) s)))"

definition isHttpUrl :: "jsstring \<Rightarrow> bool" where
  "isHttpUrl s \<longleftrightarrow> startsWith s (jsstr ''http://'') \<or> startsWith s (jsstr ''https://'')"

definition buildProfileUrl :: "urlParser \<Rightarrow> jsstring \<Rightarrow> error + jsstring" where
  "buildProfileUrl newURL vanityName =
     (let input = trim vanityName
      in if input = [] then Inl ProfileIdEmpty
         else if isHttpUrl input
         then (let canonical = toCanonicalProfileUrl newURL input
               in if regexSearch profileTailAt canonical = None then Inl ProfileUrlFormat
                  else Inr canonical)
         else (let clean = stripSlashes input
               in if clean = [] then Inl ProfileIdEmpty
                  else Inr (jsstr ''https://www.linkedin.com/in/'' @ clean @ jsstr ''/'')))"

text \<open>
  The patterns of \<open>buildPostUrl\<close>, each at one position, with group 1 as the result:
  \<^verbatim>\<open>/activity[:\-](\d+)/i\<close>, \<^verbatim>\<open>/activity[- ](\d+)/i\<close>, \<^verbatim>\<open>/(\d{10,})/\<close> and
  \<^verbatim>\<open>/urn:li:activity:(\d+)/i\<close>.
\<close>

definition wordThenDigitsAt :: "jsstring \<Rightarrow> (jschar \<Rightarrow> bool) \<Rightarrow> jschar option \<Rightarrow> jsstring \<Rightarrow> jsstring option" where
  "wordThenDigitsAt w sep prev r =
     (if startsWithCI r w
      then (case drop (length w) r of
              [] \<Rightarrow> None
            | c # r' \<Rightarrow> if sep c \<and> takeWhile isDigit r' \<noteq> [] then Some (takeWhile isDigit r') else None)
      else None)"

definition activityColonDashAt :: "jschar option \<Rightarrow> jsstring \<Rightarrow> jsstring option" where
  "activityColonDashAt = wordThenDigitsAt (jsstr ''activity'') (\<lambda>c. c = 58 \<or> c = 45)"

definition activityDashSpaceAt :: "jschar option \<Rightarrow> jsstring \<Rightarrow> jsstring option" where
  "activityDashSpaceAt = wordThenDigitsAt (jsstr ''activity'') (\<lambda>c. c = 45 \<or> c = 32)"

definition urnActivityAt :: "jschar option \<Rightarrow> jsstring \<Rightarrow> jsstring option" where
  "urnActivityAt = wordThenDigitsAt (jsstr ''urn:li:activity'') (\<lambda>c. c = 58)"

definition tenDigitsAt :: "jschar option \<Rightarrow> jsstring \<Rightarrow> jsstring option" where
  "tenDigitsAt prev r =
     (if 10 \<le> length (takeWhile isDigit r) then Some (takeWhile isDigit r) else None)"

text \<open>\<^verbatim>\<open>/^\d+$/.test(id)\<close>\<close>

definition allDigits :: "jsstring \<Rightarrow> bool" where
  "allDigits s \<longleftrightarrow> s \<noteq> [] \<and> list_all isDigit s"

text \<open>
  The first half of \<open>buildPostUrl\<close>: the value of the variable \<open>id\<close> before the final
  test, or the error thrown on the way.
\<close>

definition extractActivityId :: "urlParser \<Rightarrow> jsstring \<Rightarrow> error + jsstring" where
  "extractActivityId newURL input =
     (if isHttpUrl input
      then (case newURL input None of
              None \<Rightarrow> Inl TypeErrorInvalidUrl
            | Some u \<Rightarrow>
                (case regexSearch activityColonDashAt (pathname u) of
                   Some group1 \<Rightarrow> Inr group1
                 | None \<Rightarrow>
                     (case (case regexSearch activityDashSpaceAt (pathname u) of
                              Some m \<Rightarrow> Some m
                            | None \<Rightarrow> regexSearch tenDigitsAt (pathname u)) of
                        Some group1 \<Rightarrow> Inr group1
                      | None \<Rightarrow> Inr input)))
      else (case regexSearch urnActivityAt input of
              Some group1 \<Rightarrow> Inr group1
            | None \<Rightarrow> Inr input))"

definition buildPostUrl :: "urlParser \<Rightarrow> jsstring \<Rightarrow> error + jsstring" where
  "buildPostUrl newURL activityId =
     (let input = trim activityId
      in if input = [] then Inl ActivityIdEmpty
         else (case extractActivityId newURL input of
                 Inl e \<Rightarrow> Inl e
               | Inr ident \<Rightarrow>
                   if \<not> allDigits ident then Inl ActivityIdNotNumeric
                   else Inr (jsstr ''https://www.linkedin.com/feed/update/urn:li:activity:'' @ ident @ jsstr ''/'')))"

text \<open>
  Vanity names: as the claim has them (not empty after trimming, no slash), and those
  that the URL parser reads back unchanged: printable ASCII other than the delimiters
  and the characters of the path percent-encode set, and not a dot segment.
\<close>

definition validVanity :: "jsstring \<Rightarrow> bool" where
  "validVanity v \<longleftrightarrow> trim v \<noteq> [] \<and> 47 \<notin> set v"

definition vanityChar :: "jschar \<Rightarrow> bool" where
  "vanityChar c \<longleftrightarrow>
     33 \<le> c \<and> c < 127 \<and> c \<noteq> 34 \<and> c \<noteq> 35 \<and> c \<noteq> 47 \<and> c \<noteq> 60 \<and> c \<noteq> 62 \<and> c \<noteq> 63 \<and>
     c \<noteq> 92 \<and> c \<noteq> 94 \<and> c \<noteq> 96 \<and> c \<noteq> 123 \<and> c \<noteq> 125"

definition safeVanity :: "jsstring \<Rightarrow> bool" where
  "safeVanity w \<longleftrightarrow> w \<noteq> [] \<and> list_all vanityChar w \<and> \<not> isSingleDot w \<and> \<not> isDoubleDot w"

definition canonicalProfile :: "jsstring \<Rightarrow> jsstring" where
  "canonicalProfile w = jsstr ''https://www.linkedin.com/in/'' @ w @ jsstr ''/''"

definition exEvilUrl :: jsstring where
  "exEvilUrl = jsstr ''https://evil-linkedin.com/in/jane-doe/''"

definition exProfileUrl :: jsstring where
  "exProfileUrl = jsstr ''https://www.linkedin.com/in/jane-doe/''"

definition exQueryVanity :: jsstring where
  "exQueryVanity = jsstr ''jane?x''"

definition exSpaceVanity :: jsstring where
  "exSpaceVanity = jsstr ''jane doe''"

definition exPaddedVanity :: jsstring where
  "exPaddedVanity = jsstr '' jane-doe ''"

section \<open>The page and the world behind it\<close>

text \<open>
  The scraping functions work on a browser page. The model keeps of a page the history
  of the operations done on it: navigations, waits, and the scripts evaluated in it. An
  operation appends to the history, so a function that returns the page as it got it
  has navigated nowhere and fetched nothing. What the page answers is the world's
  business: the environment gives, for a history that ends with an operation, whether
  the operation resolved and what it returned. For a script evaluated under a \<open>catch\<close>
  the returned value is the one after the \<open>catch\<close> (the empty list or the empty string
  on failure). Delays and log lines are not modelled.
\<close>

datatype script =
    ModernCards | LegacyCards | MutualLink | EntityId | VisibleMutuals | MeFallback
  | FeedFallback | ProfileFields | PostCards bool | ConnectionCards | ScrollBy

datatype action = Goto jsstring | WaitForSelector | WaitForUrl | Evaluate script

type_synonym page = "action list"

record RawPeopleCard =
  r_name :: jsstring
  r_headline :: jsstring
  r_location :: jsstring
  r_connectionDegreeText :: jsstring
  r_profileUrl :: jsstring

record RawLink =
  l_profileUrl :: jsstring
  l_text :: jsstring

record ProfileResult =
  pr_profileUrl :: jsstring
  pr_name :: jsstring
  pr_headline :: jsstring
  pr_location :: jsstring
  pr_about :: jsstring

record PostResult =
  po_text :: jsstring
  po_postUrl :: jsstring
  po_postedAt :: jsstring
  po_reactionCount :: jsstring
  po_commentCount :: jsstring

record RawConnection =
  rc_name :: jsstring
  rc_headline :: jsstring
  rc_profileUrl :: jsstring

record env =
  envNewURL :: urlParser
  envLocaleCompare :: "jsstring \<Rightarrow> jsstring \<Rightarrow> int"
  actionOk :: "page \<Rightarrow> bool"
  pageUrl :: "page \<Rightarrow> jsstring"
  evalCards :: "page \<Rightarrow> RawPeopleCard list"
  evalString :: "page \<Rightarrow> jsstring"
  evalLinks :: "page \<Rightarrow> RawLink list"
  evalProfile :: "page \<Rightarrow> ProfileResult"
  evalPosts :: "page \<Rightarrow> PostResult list"
  evalConnections :: "page \<Rightarrow> RawConnection list"
  pageNumberUrl :: "jsstring \<Rightarrow> nat \<Rightarrow> jsstring"
  mutualSearchUrl :: "jsstring \<Rightarrow> jsstring"

text \<open>
  \<open>pageNumberUrl\<close> and \<open>mutualSearchUrl\<close> stand for the two links that the source builds
  with the query parameters of the URL interface (\<open>searchParams.set\<close>): the search link
  for a page number, and \<open>buildMutualConnectionsSearchUrl\<close>.
\<close>

section \<open>Maps of the source\<close>

text \<open>
  A \<open>Map\<close> keeps its entries in the order in which their keys were first set; setting a
  key that is there replaces the value and keeps the place.
\<close>

type_synonym ('k, 'v) jsmap = "('k \<times> 'v) list"

definition mapHas :: "('k, 'v) jsmap \<Rightarrow> 'k \<Rightarrow> bool" where
  "mapHas m k \<longleftrightarrow> k \<in> fst ` set m"

fun mapSet :: "('k, 'v) jsmap \<Rightarrow> 'k \<Rightarrow> 'v \<Rightarrow> ('k, 'v) jsmap" where
  "mapSet [] k v = [(k, v)]"
| "mapSet ((k', v') # m) k v = (if k' = k then (k, v) # m else (k', v') # mapSet m k v)"

definition mapValues :: "('k, 'v) jsmap \<Rightarrow> 'v list" where
  "mapValues m = map snd m"

text \<open>\<open>xs.slice(0, limit)\<close>; a negative end counts from the end of the list.\<close>

definition sliceTo :: "'a list \<Rightarrow> int \<Rightarrow> 'a list" where
  "sliceTo xs limit =
     (if 0 \<le> limit then take (nat limit) xs else take (length xs - nat (- limit)) xs)"

section \<open>Cards to records\<close>

definition orElse :: "jsstring \<Rightarrow> jsstring \<Rightarrow> jsstring" where
  "orElse a b = (if a \<noteq> [] then a else b)"

text \<open>The callback of \<open>.map\<close> in \<open>rawPeopleCardsToResults\<close>.\<close>

definition cardToResult :: "urlParser \<Rightarrow> RawPeopleCard \<Rightarrow> SearchPersonResult" where
  "cardToResult newURL item =
     (let parsedText = parseSearchCardText (r_connectionDegreeText item)
      in \<lparr> name = orElse (r_name item) (p_name parsedText),
           headline = orElse (r_headline item) (p_headline parsedText),
           location = orElse (r_location item) (p_location parsedText),
           connectionDegree = inferDegree (r_connectionDegreeText item),
           profileUrl = toCanonicalProfileUrl newURL (r_profileUrl item) \<rparr>)"

definition rawPeopleCardsToResults :: "urlParser \<Rightarrow> RawPeopleCard list \<Rightarrow> SearchPersonResult list" where
  "rawPeopleCardsToResults newURL rawResults =
     filter (\<lambda>item. name item \<noteq> [] \<and> profileUrl item \<noteq> [])
       (map (cardToResult newURL)
          (filter (\<lambda>item. r_profileUrl item \<noteq> []) rawResults))"

definition scrapeRawPeopleCards :: "env \<Rightarrow> page \<Rightarrow> RawPeopleCard list \<times> page" where
  "scrapeRawPeopleCards e pg =
     (let pg1 = pg @ [Evaluate ModernCards];
          modernCards = evalCards e pg1
      in if modernCards \<noteq> [] then (modernCards, pg1)
         else (let pg2 = pg1 @ [Evaluate LegacyCards] in (evalCards e pg2, pg2)))"

section \<open>Collection by page number\<close>

text \<open>\<open>if (!seen.has(person.profileUrl)) seen.set(person.profileUrl, person)\<close>\<close>

definition addIfAbsent ::
  "(jsstring, SearchPersonResult) jsmap \<Rightarrow> SearchPersonResult \<Rightarrow> (jsstring, SearchPersonResult) jsmap" where
  "addIfAbsent seen person =
     (if \<not> mapHas seen (profileUrl person) then mapSet seen (profileUrl person) person else seen)"

text \<open>
  One turn of the loop up to the parsed records: the navigation, the wait, the cards
  (read a second time when the first reading is empty), and their conversion. A
  rejected navigation ends the function with the page's error.
\<close>

definition fetchPage :: "env \<Rightarrow> jsstring \<Rightarrow> nat \<Rightarrow> page \<Rightarrow> SearchPersonResult list option \<times> page" where
  "fetchPage e startUrl pageNumber pg =
     (let pg1 = pg @ [Goto (pageNumberUrl e startUrl pageNumber)]
      in if \<not> actionOk e pg1 then (None, pg1)
         else (let pg2 = pg1 @ [WaitForSelector];
                   first = scrapeRawPeopleCards e pg2;
                   again = (if fst first = [] then scrapeRawPeopleCards e (snd first) else first)
               in (Some (rawPeopleCardsToResults (envNewURL e) (fst again)), snd again)))"

function collectLoop ::
  "env \<Rightarrow> jsstring \<Rightarrow> int \<Rightarrow> nat \<Rightarrow> nat \<Rightarrow> nat \<Rightarrow> (jsstring, SearchPersonResult) jsmap \<Rightarrow> page
   \<Rightarrow> (error + (jsstring, SearchPersonResult) jsmap) \<times> page" where
  "collectLoop e startUrl limit maxPages pageNumber emptyPageStreak seen pg =
     (if \<not> pageNumber \<le> maxPages then (Inr seen, pg)
      else (case fetchPage e startUrl pageNumber pg of
              (None, pg') \<Rightarrow> (Inl PageError, pg')
            | (Some parsed, pg') \<Rightarrow>
                if parsed = []
                then (if 2 \<le> emptyPageStreak + 1 then (Inr seen, pg')
                      else collectLoop e startUrl limit maxPages (pageNumber + 1)
                             (emptyPageStreak + 1) seen pg')
                else if limit \<le> int (length (foldl addIfAbsent seen parsed))
                then (Inr (foldl addIfAbsent seen parsed), pg')
                else collectLoop e startUrl limit maxPages (pageNumber + 1) 0
                       (foldl addIfAbsent seen parsed) pg'))"
  by pat_completeness auto
termination
  by (relation "measure (\<lambda>(e, startUrl, limit, maxPages, pageNumber, rest). maxPages + 1 - pageNumber)")
     auto

declare collectLoop.simps [simp del]

definition collectPeopleResultsByPageNumber ::
  "env \<Rightarrow> page \<Rightarrow> jsstring \<Rightarrow> int \<Rightarrow> nat \<Rightarrow> (error + SearchPersonResult list) \<times> page" where
  "collectPeopleResultsByPageNumber e pg startUrl limit maxPages =
     (case envNewURL e startUrl None of
        None \<Rightarrow> (Inl TypeErrorInvalidUrl, pg)
      | Some baseUrl \<Rightarrow>
          (case collectLoop e startUrl limit maxPages 1 0 [] pg of
             (Inl err, pg') \<Rightarrow> (Inl err, pg')
           | (Inr seen, pg') \<Rightarrow> (Inr (sliceTo (mapValues seen) limit), pg')))"

section \<open>Visible mutual connections\<close>

definition linkToMutual :: "urlParser \<Rightarrow> RawLink \<Rightarrow> MutualConnectionResult" where
  "linkToMutual newURL item =
     (let parsed = parseSearchCardText (l_text item)
      in \<lparr> name = p_name parsed, headline = p_headline parsed, location = p_location parsed,
           connectionDegree = inferDegree (l_text item),
           profileUrl = toCanonicalProfileUrl newURL (l_profileUrl item) \<rparr>)"

text \<open>\<open>deduped.set(mutual.profileUrl, mutual)\<close>, with no test before it.\<close>

definition setMutual ::
  "(jsstring, MutualConnectionResult) jsmap \<Rightarrow> MutualConnectionResult \<Rightarrow> (jsstring, MutualConnectionResult) jsmap" where
  "setMutual deduped mutual = mapSet deduped (profileUrl mutual) mutual"

definition dedupeMutuals :: "urlParser \<Rightarrow> RawLink list \<Rightarrow> MutualConnectionResult list" where
  "dedupeMutuals newURL raw =
     (let mapped = filter (\<lambda>item. name item \<noteq> [] \<and> profileUrl item \<noteq> [])
                     (map (linkToMutual newURL) raw)
      in mapValues (foldl setMutual [] mapped))"

definition scrapeVisibleMutualConnections :: "env \<Rightarrow> page \<Rightarrow> MutualConnectionResult list \<times> page" where
  "scrapeVisibleMutualConnections e pg =
     (let pg1 = pg @ [Evaluate VisibleMutuals]
      in (dedupeMutuals (envNewURL e) (evalLinks e pg1), pg1))"

section \<open>Profiles\<close>

text \<open>\<open>s.includes(p)\<close>\<close>

definition includesStr :: "jsstring \<Rightarrow> jsstring \<Rightarrow> bool" where
  "includesStr s p \<longleftrightarrow> list_ex (\<lambda>i. startsWith (drop i s) p) [0..<Suc (length s)]"

definition resolveMyProfileUrl :: "env \<Rightarrow> page \<Rightarrow> (error + jsstring) \<times> page" where
  "resolveMyProfileUrl e pg =
     (let pg1 = pg @ [Goto (jsstr ''https://www.linkedin.com/in/me/'')]
      in if \<not> actionOk e pg1 then (Inl PageError, pg1)
         else (let pg2 = pg1 @ [WaitForUrl]
               in if \<not> includesStr (pageUrl e pg2) (jsstr ''/in/me/'')
                  then (Inr (toCanonicalProfileUrl (envNewURL e) (pageUrl e pg2)), pg2)
                  else (let pg3 = pg2 @ [Evaluate MeFallback];
                            fallbackFromMePage = evalString e pg3
                        in if fallbackFromMePage \<noteq> []
                           then (Inr (toCanonicalProfileUrl (envNewURL e) fallbackFromMePage), pg3)
                           else (let pg4 = pg3 @ [Goto (jsstr ''https://www.linkedin.com/feed/'')]
                                 in if \<not> actionOk e pg4 then (Inl PageError, pg4)
                                    else (let pg5 = pg4 @ [Evaluate FeedFallback];
                                              fallbackFromFeed = evalString e pg5
                                          in if fallbackFromFeed = []
                                             then (Inl CouldNotResolveOwnProfile, pg5)
                                             else (Inr (toCanonicalProfileUrl (envNewURL e) fallbackFromFeed),
                                                   pg5))))))"

definition getProfile :: "env \<Rightarrow> page \<Rightarrow> jsstring \<Rightarrow> (error + ProfileResult) \<times> page" where
  "getProfile e pg profileUrl' =
     (let normalized = normalizeProfileUrl (envNewURL e) profileUrl'
      in if normalized = [] then (Inl InvalidProfileUrl, pg)
         else (case assertLinkedInUrl (envNewURL e) normalized of
                 Inl err \<Rightarrow> (Inl err, pg)
               | Inr ok \<Rightarrow>
                   (let pg1 = pg @ [Goto normalized]
                    in if \<not> actionOk e pg1 then (Inl PageError, pg1)
                       else (let pg2 = pg1 @ [Evaluate ProfileFields]
                             in if \<not> actionOk e pg2 then (Inl PageError, pg2)
                                else (Inr ((evalProfile e pg2)
                                             \<lparr> pr_profileUrl :=
                                                 normalizeProfileUrl (envNewURL e) (pageUrl e pg2) \<rparr>),
                                      pg2)))))"

section \<open>Mutual connections and warm introduction paths\<close>

definition getMutualConnections ::
  "env \<Rightarrow> page \<Rightarrow> jsstring \<Rightarrow> int \<Rightarrow> (error + MutualConnectionResult list) \<times> page" where
  "getMutualConnections e pg targetProfileUrl' limit =
     (if limit \<le> 0 then (Inr [], pg)
      else (let canonicalTargetUrl = toCanonicalProfileUrl (envNewURL e) targetProfileUrl'
            in if canonicalTargetUrl = [] then (Inl InvalidTargetProfileUrl, pg)
               else (case assertLinkedInUrl (envNewURL e) canonicalTargetUrl of
                       Inl err \<Rightarrow> (Inl err, pg)
                     | Inr ok \<Rightarrow>
                         (let pg1 = pg @ [Goto canonicalTargetUrl]
                          in if \<not> actionOk e pg1 then (Inl PageError, pg1)
                             else (let pg2 = pg1 @ [Evaluate MutualLink];
                                       found = evalString e pg2;
                                       pg3 = (if found = [] then pg2 @ [Evaluate EntityId] else pg2);
                                       profileEntityId = (if found = [] then evalString e pg3 else []);
                                       searchUrl =
                                         (if found \<noteq> [] then found
                                          else if profileEntityId \<noteq> []
                                          then mutualSearchUrl e profileEntityId
                                          else [])
                                   in if searchUrl = []
                                      then (let visible = scrapeVisibleMutualConnections e pg3
                                            in (Inr (sliceTo (fst visible) limit), snd visible))
                                      else collectPeopleResultsByPageNumber e pg3 searchUrl limit 50)))))"

definition getWarmIntroPaths ::
  "env \<Rightarrow> page \<Rightarrow> jsstring \<Rightarrow> int \<Rightarrow> (error + WarmIntroPathResult list) \<times> page" where
  "getWarmIntroPaths e pg targetProfileUrl' limit =
     (if limit \<le> 0 then (Inr [], pg)
      else (case resolveMyProfileUrl e pg of
              (Inl err, pg1) \<Rightarrow> (Inl err, pg1)
            | (Inr sourceProfileUrl', pg1) \<Rightarrow>
                (case getProfile e pg1 targetProfileUrl' of
                   (Inl err, pg2) \<Rightarrow> (Inl err, pg2)
                 | (Inr target, pg2) \<Rightarrow>
                     (case getMutualConnections e pg2 (pr_profileUrl target) limit of
                        (Inl err, pg3) \<Rightarrow> (Inl err, pg3)
                      | (Inr mutuals, pg3) \<Rightarrow>
                          (Inr (sliceTo
                                  (buildWarmIntroPathsFromMutuals (envLocaleCompare e) sourceProfileUrl'
                                     \<lparr> t_profileUrl = pr_profileUrl target, t_name = pr_name target,
                                       t_headline = pr_headline target,
                                       t_location = pr_location target \<rparr>
                                     mutuals)
                                  limit),
                           pg3)))))"

section \<open>Collection by scrolling\<close>

text \<open>
  The stability counters of both scroll loops:
  \<^verbatim>\<open>if (seen.size === previousCount) stableRounds += 1;
  else { stableRounds = 0; previousCount = seen.size; }\<close>
\<close>

definition nextStable :: "nat \<Rightarrow> nat \<Rightarrow> nat \<Rightarrow> nat \<times> nat" where
  "nextStable size' stableRounds previousCount =
     (if size' = previousCount then (stableRounds + 1, previousCount) else (0, size'))"

text \<open>The body of the loop over the posts of one round.\<close>

definition addPost :: "urlParser \<Rightarrow> (jsstring, PostResult) jsmap \<Rightarrow> PostResult \<Rightarrow> (jsstring, PostResult) jsmap" where
  "addPost newURL seen post =
     (if po_postUrl post = [] \<and> po_text post = [] then seen
      else (let normalizedUrl = (if po_postUrl post \<noteq> [] then normalizeProfileUrl newURL (po_postUrl post) else []);
                k = (if normalizedUrl \<noteq> [] then normalizedUrl else jsstr ''text:'' @ take 120 (po_text post))
            in if \<not> mapHas seen k
               then mapSet seen k (post \<lparr> po_postUrl := normalizedUrl \<rparr>)
               else seen))"

function postsLoop ::
  "env \<Rightarrow> bool \<Rightarrow> int \<Rightarrow> nat \<Rightarrow> nat \<Rightarrow> nat \<Rightarrow> nat \<Rightarrow> (jsstring, PostResult) jsmap \<Rightarrow> page
   \<Rightarrow> (error + (jsstring, PostResult) jsmap) \<times> page" where
  "postsLoop e withEngagement limit maxRounds round stableRounds previousCount seen pg =
     (if \<not> round < maxRounds then (Inr seen, pg)
      else (let pg1 = pg @ [Evaluate (PostCards withEngagement)];
                seen1 = foldl (addPost (envNewURL e)) seen (evalPosts e pg1)
            in if limit \<le> int (length seen1) then (Inr seen1, pg1)
               else if 4 \<le> fst (nextStable (length seen1) stableRounds previousCount)
               then (Inr seen1, pg1)
               else if \<not> actionOk e (pg1 @ [Evaluate ScrollBy])
               then (Inl PageError, pg1 @ [Evaluate ScrollBy])
               else postsLoop e withEngagement limit maxRounds (round + 1)
                      (fst (nextStable (length seen1) stableRounds previousCount))
                      (snd (nextStable (length seen1) stableRounds previousCount))
                      seen1 (pg1 @ [Evaluate ScrollBy])))"
  by pat_completeness auto
termination
  by (relation "measure (\<lambda>(e, w, limit, maxRounds, round, rest). maxRounds - round)") auto

declare postsLoop.simps [simp del]

definition normalizeProfileBase :: "urlParser \<Rightarrow> jsstring \<Rightarrow> jsstring" where
  "normalizeProfileBase newURL u =
     (let normalized = normalizeProfileUrl newURL u
      in if endsWith normalized (jsstr ''/'') then normalized else normalized @ jsstr ''/'')"

definition listPosts :: "env \<Rightarrow> page \<Rightarrow> jsstring \<Rightarrow> int \<Rightarrow> bool \<Rightarrow> (error + PostResult list) \<times> page" where
  "listPosts e pg profileUrl' limit withEngagement =
     (if limit \<le> 0 then (Inr [], pg)
      else (let activityUrl = normalizeProfileBase (envNewURL e) profileUrl' @ jsstr ''recent-activity/all/'';
                pg1 = pg @ [Goto activityUrl]
            in if \<not> actionOk e pg1 then (Inl PageError, pg1)
               else (case postsLoop e withEngagement limit 30 0 0 0 [] pg1 of
                       (Inl err, pg') \<Rightarrow> (Inl err, pg')
                     | (Inr seen, pg') \<Rightarrow> (Inr (sliceTo (mapValues seen) limit), pg'))))"

text \<open>The body of the loop over the connections of one round.\<close>

definition addConnection ::
  "urlParser \<Rightarrow> (jsstring, SearchPersonResult) jsmap \<Rightarrow> RawConnection \<Rightarrow> (jsstring, SearchPersonResult) jsmap" where
  "addConnection newURL seen conn =
     (if rc_profileUrl conn = [] \<or> rc_name conn = [] then seen
      else (let canonical = toCanonicalProfileUrl newURL (rc_profileUrl conn)
            in if canonical \<noteq> [] \<and> \<not> mapHas seen canonical
               then mapSet seen canonical
                      \<lparr> name = rc_name conn, headline = rc_headline conn, location = [],
                        connectionDegree = jsstr ''1st'', profileUrl = canonical \<rparr>
               else seen))"

function connectionsLoop ::
  "env \<Rightarrow> int \<Rightarrow> nat \<Rightarrow> nat \<Rightarrow> nat \<Rightarrow> nat \<Rightarrow> (jsstring, SearchPersonResult) jsmap \<Rightarrow> page
   \<Rightarrow> (error + (jsstring, SearchPersonResult) jsmap) \<times> page" where
  "connectionsLoop e limit maxRounds round stableRounds previousCount seen pg =
     (if \<not> round < maxRounds then (Inr seen, pg)
      else (let pg1 = pg @ [Evaluate ConnectionCards];
                seen1 = foldl (addConnection (envNewURL e)) seen (evalConnections e pg1)
            in if limit \<le> int (length seen1) then (Inr seen1, pg1)
               else if 5 \<le> fst (nextStable (length seen1) stableRounds previousCount)
               then (Inr seen1, pg1)
               else if \<not> actionOk e (pg1 @ [Evaluate ScrollBy])
               then (Inl PageError, pg1 @ [Evaluate ScrollBy])
               else connectionsLoop e limit maxRounds (round + 1)
                      (fst (nextStable (length seen1) stableRounds previousCount))
                      (snd (nextStable (length seen1) stableRounds previousCount))
                      seen1 (pg1 @ [Evaluate ScrollBy])))"
  by pat_completeness auto
termination
  by (relation "measure (\<lambda>(e, limit, maxRounds, round, rest). maxRounds - round)") auto

declare connectionsLoop.simps [simp del]

definition listConnections :: "env \<Rightarrow> page \<Rightarrow> int \<Rightarrow> (error + SearchPersonResult list) \<times> page" where
  "listConnections e pg limit =
     (if limit \<le> 0 then (Inr [], pg)
      else (let pg1 = pg @ [Goto (jsstr ''https://www.linkedin.com/mynetwork/invite-connect/connections/'')]
            in if \<not> actionOk e pg1 then (Inl PageError, pg1)
               else (case connectionsLoop e limit 60 0 0 0 [] pg1 of
                       (Inl err, pg') \<Rightarrow> (Inl err, pg')
                     | (Inr seen, pg') \<Rightarrow> (Inr (sliceTo (mapValues seen) limit), pg'))))"

section \<open>A stub world\<close>

text \<open>
  A world for the examples: every operation resolves, and every script returns the same
  thing whatever the history. The person cards, the links and the posts are parameters.
\<close>

definition stubEnv :: "RawPeopleCard list \<Rightarrow> RawLink list \<Rightarrow> PostResult list \<Rightarrow> RawConnection list \<Rightarrow> env" where
  "stubEnv cards links posts conns =
     \<lparr> envNewURL = whatwgURL noExt,
       envLocaleCompare = codeUnitCompare,
       actionOk = (\<lambda>pg. True),
       pageUrl = (\<lambda>pg. jsstr ''https://www.linkedin.com/in/me/''),
       evalCards = (\<lambda>pg. cards),
       evalString = (\<lambda>pg. []),
       evalLinks = (\<lambda>pg. links),
       evalProfile = (\<lambda>pg. \<lparr> pr_profileUrl = [], pr_name = [], pr_headline = [], pr_location = [],
                               pr_about = [] \<rparr>),
       evalPosts = (\<lambda>pg. posts),
       evalConnections = (\<lambda>pg. conns),
       pageNumberUrl = (\<lambda>startUrl n. startUrl),
       mutualSearchUrl = (\<lambda>ident. []) \<rparr>"

definition exCardJane :: RawPeopleCard where
  "exCardJane =
     \<lparr> r_name = jsstr ''Jane Doe'', r_headline = jsstr ''Engineer'', r_location = jsstr ''Austin'',
       r_connectionDegreeText = jsstr ''Jane Doe 2nd'',
       r_profileUrl = jsstr ''https://www.linkedin.com/in/jane-doe/?trk=x'' \<rparr>"

definition exPersonJane :: SearchPersonResult where
  "exPersonJane =
     \<lparr> name = jsstr ''Jane Doe'', headline = jsstr ''Engineer'', location = jsstr ''Austin'',
       connectionDegree = jsstr ''2nd'',
       profileUrl = jsstr ''https://www.linkedin.com/in/jane-doe/'' \<rparr>"

text \<open>A card whose name could not be read, with a good link.\<close>

definition exCardNameless :: RawPeopleCard where
  "exCardNameless =
     \<lparr> r_name = [], r_headline = jsstr ''Engineer'', r_location = [],
       r_connectionDegreeText = [],
       r_profileUrl = jsstr ''https://www.linkedin.com/in/jane-doe/'' \<rparr>"

text \<open>Two links to one profile, with different texts.\<close>

definition exLinkFirst :: RawLink where
  "exLinkFirst = \<lparr> l_profileUrl = jsstr ''https://www.linkedin.com/in/jane-doe/'',
                    l_text = jsstr ''Jane Doe'' \<rparr>"

definition exLinkSecond :: RawLink where
  "exLinkSecond = \<lparr> l_profileUrl = jsstr ''https://www.linkedin.com/in/jane-doe/?trk=card'',
                     l_text = jsstr ''Jane D.'' \<rparr>"

definition exPost :: PostResult where
  "exPost = \<lparr> po_text = jsstr ''Hello'',
               po_postUrl = jsstr ''https://www.linkedin.com/feed/update/urn:li:activity:1/'',
               po_postedAt = jsstr ''1d'', po_reactionCount = [], po_commentCount = [] \<rparr>"

definition exConnection :: RawConnection where
  "exConnection = \<lparr> rc_name = jsstr ''Jane Doe'', rc_headline = jsstr ''Engineer'',
                     rc_profileUrl = jsstr ''https://www.linkedin.com/in/jane-doe/'' \<rparr>"

text \<open>Counting the rounds of a collection in the history of the page.\<close>

definition isGoto :: "action \<Rightarrow> bool" where
  "isGoto a = (case a of Goto u \<Rightarrow> True | _ \<Rightarrow> False)"

definition pagesVisited :: "page \<Rightarrow> nat" where
  "pagesVisited pg = length (filter isGoto pg)"

definition roundsOf :: "script \<Rightarrow> page \<Rightarrow> nat" where
  "roundsOf s pg = length (filter (\<lambda>a. a = Evaluate s) pg)"

text \<open>The record that \<open>listConnections\<close> stores for a connection with a canonical link.\<close>

definition connectionResult :: "RawConnection \<Rightarrow> SearchPersonResult" where
  "connectionResult conn =
     \<lparr> name = rc_name conn, headline = rc_headline conn, location = [],
       connectionDegree = jsstr ''1st'', profileUrl = rc_profileUrl conn \<rparr>"

text \<open>A record for the profile of \<open>exPersonJane\<close> that was collected before.\<close>

definition exPersonFirst :: SearchPersonResult where
  "exPersonFirst = exPersonJane \<lparr> headline := jsstr ''Seen first'' \<rparr>"

definition exSearchUrl :: jsstring where
  "exSearchUrl = jsstr ''https://www.linkedin.com/search/results/people/''"

section \<open>Evaluation on concrete inputs\<close>

lemmas string_defs =
  jsstr_def isSpaceJS_def notSpaceJS_def isDigit_def isLowerAZ_def isUpperAZ_def trim_def
  startsWith_def endsWith_def lowerUnit_def toLowerCase_def foldAscii_def eqCI_def
  startsWithCI_def Let_def

lemmas token_defs =
  splitWs.simps replaceNonAlnum_def tokenize_def setAdd_def newSet_def sharedTokenCount_def

lemmas warm_defs =
  degreeStep_def headlineStep_def locationStep_def penaltyStep_def scoreMutual_def
  comparePaths_def buildWarmIntroPathsFromMutuals_def numToString.simps

lemmas example_defs =
  exSource_def exTarget_def exMutualA_def exMutualB_def exMutualBob_def exMutualAl_def

section \<open>Tokens\<close>

lemma splitWs_Nil: "dropWhile notSpaceJS s = [] \<Longrightarrow> splitWs s = [s]"
  by (subst splitWs.simps) (simp del: dropWhile_eq_Nil_conv)

lemma splitWs_Cons:
  "dropWhile notSpaceJS s = c # rest \<Longrightarrow>
   splitWs s = takeWhile notSpaceJS s # splitWs (dropWhile isSpaceJS rest)"
  by (subst splitWs.simps) simp

lemma maximalRuns_Nil: "dropWhile (\<lambda>c. \<not> P c) s = [] \<Longrightarrow> maximalRuns P s = []"
  by (subst maximalRuns.simps) (simp del: dropWhile_eq_Nil_conv)

lemma maximalRuns_Cons:
  "dropWhile (\<lambda>c. \<not> P c) s = c # rest \<Longrightarrow>
   maximalRuns P s = takeWhile P (c # rest) # maximalRuns P (dropWhile P rest)"
  by (subst maximalRuns.simps) simp

lemma maximalRuns_dropWhile: "maximalRuns P (dropWhile (\<lambda>c. \<not> P c) s) = maximalRuns P s"
  by (subst maximalRuns.simps, subst (2) maximalRuns.simps) simp

lemma not_notSpaceJS: "(\<lambda>c. \<not> notSpaceJS c) = isSpaceJS"
  by (simp add: notSpaceJS_def fun_eq_iff)

lemma splitWs_pieces: "t \<in> set (splitWs s) \<Longrightarrow> c \<in> set t \<Longrightarrow> notSpaceJS c"
proof (induction s rule: splitWs.induct)
  case (1 s)
  show ?case
  proof (cases "dropWhile notSpaceJS s")
    case Nil
    then have "\<forall>x\<in>set s. notSpaceJS x" by simp
    moreover from Nil "1.prems" have "t = s" by (simp add: splitWs_Nil)
    ultimately show ?thesis using "1.prems" by simp
  next
    case (Cons d rest)
    with "1.prems" have "t = takeWhile notSpaceJS s \<or> t \<in> set (splitWs (dropWhile isSpaceJS rest))"
      by (simp add: splitWs_Cons)
    then show ?thesis
    proof
      assume "t = takeWhile notSpaceJS s"
      with "1.prems" show ?thesis by (auto dest: set_takeWhileD)
    next
      assume "t \<in> set (splitWs (dropWhile isSpaceJS rest))"
      with "1.IH" [OF Cons] "1.prems" show ?thesis by simp
    qed
  qed
qed

lemma dropWhile_none: "(\<And>c. c \<in> set t \<Longrightarrow> \<not> P c) \<Longrightarrow> dropWhile P t = t"
  by (cases t) auto

lemma trim_id: "(\<And>c. c \<in> set t \<Longrightarrow> notSpaceJS c) \<Longrightarrow> trim t = t"
proof -
  assume a: "\<And>c. c \<in> set t \<Longrightarrow> notSpaceJS c"
  have "dropWhile isSpaceJS t = t"
    using a by (intro dropWhile_none) (simp add: notSpaceJS_def)
  moreover have "dropWhile isSpaceJS (rev t) = rev t"
    using a by (intro dropWhile_none) (simp add: notSpaceJS_def)
  ultimately show ?thesis by (simp add: trim_def)
qed

lemma splitWs_runs: "filter (\<lambda>t. t \<noteq> []) (splitWs s) = maximalRuns notSpaceJS s"
proof (induction s rule: splitWs.induct)
  case (1 s)
  show ?case
  proof (cases "dropWhile notSpaceJS s")
    case Nil
    then have all: "\<And>x. x \<in> set s \<Longrightarrow> notSpaceJS x" by simp
    show ?thesis
    proof (cases s)
      case Nil
      then show ?thesis by (simp add: splitWs_Nil maximalRuns_Nil)
    next
      case (Cons a as)
      have "dropWhile (\<lambda>c. \<not> notSpaceJS c) s = a # as"
        using all Cons by (simp add: dropWhile_none)
      then have "maximalRuns notSpaceJS s = takeWhile notSpaceJS s # maximalRuns notSpaceJS (dropWhile notSpaceJS as)"
        using Cons by (simp add: maximalRuns_Cons)
      moreover have "takeWhile notSpaceJS s = s" using all by simp
      moreover have "dropWhile notSpaceJS as = []" using all Cons by simp
      ultimately show ?thesis
        using Cons Nil by (simp add: splitWs_Nil maximalRuns_Nil)
    qed
  next
    case (Cons d rest)
    then have wsd: "isSpaceJS d"
      by (metis dropWhile_eq_Cons_conv notSpaceJS_def)
    have s_eq: "s = takeWhile notSpaceJS s @ d # rest"
      using Cons by (metis takeWhile_dropWhile_id)
    have IH: "filter (\<lambda>t. t \<noteq> []) (splitWs (dropWhile isSpaceJS rest)) = maximalRuns notSpaceJS (dropWhile isSpaceJS rest)"
      using "1.IH" [OF Cons] .
    have "maximalRuns notSpaceJS (dropWhile (\<lambda>c. \<not> notSpaceJS c) (d # rest)) = maximalRuns notSpaceJS (d # rest)"
      by (rule maximalRuns_dropWhile)
    then have r1: "maximalRuns notSpaceJS (d # rest) = maximalRuns notSpaceJS (dropWhile isSpaceJS rest)"
      using wsd by (simp add: not_notSpaceJS)
    show ?thesis
    proof (cases "takeWhile notSpaceJS s")
      case Nil
      with s_eq have "s = d # rest" by simp
      then show ?thesis using IH r1 Cons Nil
        by (simp add: splitWs_Cons)
    next
      case (Cons a as)
      then obtain s' where s': "s = a # s'" and na: "notSpaceJS a"
        by (metis append_Cons s_eq list.set_intros(1) set_takeWhileD)
      have "dropWhile (\<lambda>c. \<not> notSpaceJS c) s = a # s'"
        using s' na by simp
      then have "maximalRuns notSpaceJS s = takeWhile notSpaceJS s # maximalRuns notSpaceJS (dropWhile notSpaceJS s')"
        using s' by (simp add: maximalRuns_Cons)
      moreover have "dropWhile notSpaceJS s' = d # rest"
        using \<open>dropWhile notSpaceJS s = d # rest\<close> s' na by simp
      ultimately show ?thesis using IH r1 Cons \<open>dropWhile notSpaceJS s = d # rest\<close>
        by (simp add: splitWs_Cons)
    qed
  qed
qed

lemma maximalRuns_map:
  assumes fixP: "\<And>c. P c \<Longrightarrow> f c = c" and iff: "\<And>c. Q (f c) \<longleftrightarrow> P c"
  shows "maximalRuns Q (map f s) = maximalRuns P s"
proof (induction s rule: length_induct)
  case (1 s)
  have qf: "(Q \<circ> f) = P" "((\<lambda>c. \<not> Q c) \<circ> f) = (\<lambda>c. \<not> P c)"
    using iff by (auto simp: fun_eq_iff)
  show ?case
  proof (cases "dropWhile (\<lambda>c. \<not> P c) s")
    case Nil
    then have "dropWhile (\<lambda>c. \<not> Q c) (map f s) = []"
      by (simp add: dropWhile_map qf)
    with Nil show ?thesis
      by (simp add: maximalRuns_Nil)
  next
    case (Cons d rest)
    have len: "length (dropWhile P rest) < length s"
      using Cons length_dropWhile_le [of "\<lambda>c. \<not> P c" s] length_dropWhile_le [of P rest] by simp
    have pd: "P d" using Cons by (metis dropWhile_eq_Cons_conv)
    have qd: "Q d" using iff [of d] fixP [OF pd] pd by simp
    have tw: "map f (takeWhile P rest) = takeWhile P rest"
      by (rule map_idI) (auto dest: set_takeWhileD simp: fixP)
    have "dropWhile (\<lambda>c. \<not> Q c) (map f s) = f d # map f rest"
      using Cons by (simp add: dropWhile_map qf)
    then have "maximalRuns Q (map f s) = takeWhile Q (f d # map f rest) # maximalRuns Q (dropWhile Q (map f rest))"
      by (rule maximalRuns_Cons)
    also have "\<dots> = takeWhile P (d # rest) # maximalRuns Q (map f (dropWhile P rest))"
      using pd qd by (simp add: takeWhile_map dropWhile_map qf iff fixP tw)
    also have "\<dots> = takeWhile P (d # rest) # maximalRuns P (dropWhile P rest)"
      using 1 len by simp
    also have "\<dots> = maximalRuns P s"
      using Cons by (simp add: maximalRuns_Cons)
    finally show ?thesis .
  qed
qed

lemma tokenChar_notSpace: "isTokenChar c \<Longrightarrow> \<not> isSpaceJS c"
  by (auto simp: isTokenChar_def isLowerAZ_def isDigit_def isSpaceJS_def)

lemma tokenize_runs:
  "tokenize v = filter (\<lambda>t. length t > 2) (maximalRuns isTokenChar (toLowerCase v))"
proof -
  let ?f = "\<lambda>c. if isLowerAZ c \<or> isDigit c \<or> isSpaceJS c then c else 32"
  let ?R = "replaceNonAlnum (toLowerCase v)"
  have "map trim (splitWs ?R) = splitWs ?R"
    by (rule map_idI) (auto intro: trim_id dest: splitWs_pieces)
  then have "tokenize v = filter (\<lambda>t. length t > 2) (filter (\<lambda>t. t \<noteq> []) (splitWs ?R))"
    by (auto simp: tokenize_def intro: filter_cong)
  also have "\<dots> = filter (\<lambda>t. length t > 2) (maximalRuns notSpaceJS ?R)"
    by (simp only: splitWs_runs)
  also have "maximalRuns notSpaceJS ?R = maximalRuns isTokenChar (toLowerCase v)"
    unfolding replaceNonAlnum_def
  proof (rule maximalRuns_map)
    fix c show "isTokenChar c \<Longrightarrow> ?f c = c" by (auto simp: isTokenChar_def)
    show "notSpaceJS (?f c) \<longleftrightarrow> isTokenChar c"
      using tokenChar_notSpace [of c]
      by (auto simp: notSpaceJS_def isTokenChar_def) (simp add: isSpaceJS_def)
  qed
  finally show ?thesis .
qed

section \<open>Scoring and ranking of warm introduction paths\<close>

lemma countShared_filter: "countShared xs bT n = n + length (filter (\<lambda>t. t \<in> set bT) xs)"
  by (induction xs arbitrary: n) auto

lemma foldl_setAdd_set: "set (foldl setAdd acc xs) = set acc \<union> set xs"
  by (induction xs arbitrary: acc) (auto simp: setAdd_def)

lemma foldl_setAdd_distinct: "distinct acc \<Longrightarrow> distinct (foldl setAdd acc xs)"
  by (induction xs arbitrary: acc) (auto simp: setAdd_def)

lemma set_newSet: "set (newSet xs) = set xs"
  by (simp add: newSet_def foldl_setAdd_set)

lemma distinct_newSet: "distinct (newSet xs)"
  by (simp add: newSet_def foldl_setAdd_distinct)

lemma sharedTokenCount_card:
  "sharedTokenCount a b =
     (if a = [] \<or> b = [] then 0 else card (set (tokenize a) \<inter> set (tokenize b)))"
proof -
  have "length (filter (\<lambda>t. t \<in> set (tokenize b)) (newSet (tokenize a)))
        = card (set (tokenize a) \<inter> set (tokenize b))"
    using distinct_length_filter [OF distinct_newSet, of "\<lambda>t. t \<in> set (tokenize b)" "tokenize a"]
    by (simp add: set_newSet Int_commute Collect_mem_eq)
  then show ?thesis
    by (simp add: sharedTokenCount_def countShared_filter set_newSet)
qed

lemma set_tokenize: "set (tokenize s) = specTokens s"
  by (auto simp: tokenize_runs specTokens_def)

lemma mset_insertSorted: "mset (insertSorted c x ys) = add_mset x (mset ys)"
  by (induction ys) auto

lemma mset_arraySort: "mset (arraySort c xs) = mset xs"
  by (induction xs) (auto simp: mset_insertSorted)

lemma set_insertSorted: "set (insertSorted c x ys) = insert x (set ys)"
  by (induction ys) auto

lemma sorted_insertSorted:
  assumes total: "\<And>a b. c a b \<le> 0 \<or> c b a \<le> 0"
    and trans: "\<And>a b d. c a b \<le> 0 \<Longrightarrow> c b d \<le> 0 \<Longrightarrow> c a d \<le> 0"
  shows "sorted_wrt (\<lambda>a b. c a b \<le> 0) ys \<Longrightarrow> sorted_wrt (\<lambda>a b. c a b \<le> 0) (insertSorted c x ys)"
proof (induction ys)
  case Nil
  then show ?case by simp
next
  case (Cons y ys)
  show ?case
  proof (cases "c x y \<le> 0")
    case True
    then have "\<forall>z\<in>set ys. c x z \<le> 0"
      using Cons.prems trans by auto
    with True Cons.prems show ?thesis by simp
  next
    case False
    then have "c y x \<le> 0" using total [of x y] by simp
    with False Cons show ?thesis by (simp add: set_insertSorted)
  qed
qed

lemma sorted_arraySort:
  assumes total: "\<And>a b. c a b \<le> 0 \<or> c b a \<le> 0"
    and trans: "\<And>a b d. c a b \<le> 0 \<Longrightarrow> c b d \<le> 0 \<Longrightarrow> c a d \<le> 0"
  shows "sorted_wrt (\<lambda>a b. c a b \<le> 0) (arraySort c xs)"
  by (induction xs) (auto intro: sorted_insertSorted [OF total trans])

lemma comparePaths_le:
  "comparePaths lc p q \<le> 0 \<longleftrightarrow>
     score q < score p \<or> (score p = score q \<and> lc (name (via p)) (name (via q)) \<le> 0)"
  by (auto simp: comparePaths_def)

lemma score_scoreMutual:
  "score (scoreMutual src tgt m) =
     40 + (if startsWith (connectionDegree m) (jsstr ''1'') then 30
           else if startsWith (connectionDegree m) (jsstr ''2'') then 15 else 0)
        + (if sharedTokenCount (headline m) (t_headline tgt) > 0
           then min 20 (4 * int (sharedTokenCount (headline m) (t_headline tgt))) else 0)
        + (if sharedTokenCount (location m) (t_location tgt) > 0
           then min 15 (5 * int (sharedTokenCount (location m) (t_location tgt))) else 0)
        - (if headline m = [] then 5 else 0)"
  by (simp add: scoreMutual_def degreeStep_def headlineStep_def locationStep_def penaltyStep_def Let_def mult.commute)

lemma rationale_scoreMutual:
  "rationale (scoreMutual src tgt m) =
     [if startsWith (connectionDegree m) (jsstr ''1'') then jsstr ''Mutual appears as a first-degree connection.''
      else if startsWith (connectionDegree m) (jsstr ''2'') then jsstr ''Mutual appears as a second-degree connection.''
      else jsstr ''Connection degree is not explicit.'']
     @ (if sharedTokenCount (headline m) (t_headline tgt) > 0
        then [jsstr ''Shared headline context tokens: '' @ numToString (sharedTokenCount (headline m) (t_headline tgt)) @ jsstr ''.'']
        else [])
     @ (if sharedTokenCount (location m) (t_location tgt) > 0
        then [jsstr ''Shared location context tokens: '' @ numToString (sharedTokenCount (location m) (t_location tgt)) @ jsstr ''.'']
        else [])
     @ (if headline m = [] then [jsstr ''Limited headline context available.''] else [])"
  by (simp add: scoreMutual_def degreeStep_def headlineStep_def locationStep_def penaltyStep_def Let_def)

lemma codeUnitCompare_total: "codeUnitCompare a b \<le> 0 \<or> codeUnitCompare b a \<le> 0"
  by (induction a b rule: codeUnitCompare.induct) auto

lemma codeUnitCompare_trans:
  "codeUnitCompare a b \<le> 0 \<Longrightarrow> codeUnitCompare b c \<le> 0 \<Longrightarrow> codeUnitCompare a c \<le> 0"
proof (induction a b arbitrary: c rule: codeUnitCompare.induct)
  case 1
  then show ?case by simp
next
  case (2 y ys)
  then show ?case by (cases c) simp_all
next
  case (3 x xs)
  then show ?case by simp
next
  case (4 x xs y ys)
  show ?case
  proof (cases c)
    case Nil
    with 4 show ?thesis by simp
  next
    case (Cons z zs)
    have xy: "x \<le> y" using "4.prems"(1) by (simp split: if_splits)
    have yz: "y \<le> z" using "4.prems"(2) Cons by (simp split: if_splits)
    show ?thesis
    proof (cases "x < z")
      case True
      then show ?thesis using Cons by simp
    next
      case False
      with xy yz have e: "x = y" "y = z" by simp_all
      then have "codeUnitCompare xs ys \<le> 0" "codeUnitCompare ys zs \<le> 0"
        using "4.prems" Cons by simp_all
      then have "codeUnitCompare xs zs \<le> 0"
        using "4.IH" e by simp
      then show ?thesis using e Cons by simp
    qed
  qed
qed

text \<open>
  Claim C1. For every source, target and list of mutuals, the result holds exactly one
  path for each mutual: as a multiset it is the list of the mutuals' scored paths. The
  score of a mutual's path is 40, plus 30 when the connection degree starts with the
  digit 1 (first degree) or 15 when it starts with 2 (second degree), plus
  min(20, 4 n) for n > 0 shared headline tokens, plus min(15, 5 n) for n > 0 shared
  location tokens, minus 5 for an empty headline. The rationale has one line for each
  of these terms, in this order (the degree line is always there). The path is source,
  mutual, target. The shared token count is the size of the intersection of the two
  token sets of the specification, and 0 when either text is empty.
\<close>

theorem C1_score_rationale_path:
  "mset (buildWarmIntroPathsFromMutuals localeCompare src tgt ms)
     = mset (map (scoreMutual src tgt) ms)
   \<and> via (scoreMutual src tgt m) = m
   \<and> score (scoreMutual src tgt m) =
       40 + (if startsWith (connectionDegree m) (jsstr ''1'') then 30
             else if startsWith (connectionDegree m) (jsstr ''2'') then 15 else 0)
          + (if sharedTokenCount (headline m) (t_headline tgt) > 0
             then min 20 (4 * int (sharedTokenCount (headline m) (t_headline tgt))) else 0)
          + (if sharedTokenCount (location m) (t_location tgt) > 0
             then min 15 (5 * int (sharedTokenCount (location m) (t_location tgt))) else 0)
          - (if headline m = [] then 5 else 0)
   \<and> rationale (scoreMutual src tgt m) =
       [if startsWith (connectionDegree m) (jsstr ''1'')
        then jsstr ''Mutual appears as a first-degree connection.''
        else if startsWith (connectionDegree m) (jsstr ''2'')
        then jsstr ''Mutual appears as a second-degree connection.''
        else jsstr ''Connection degree is not explicit.'']
       @ (if sharedTokenCount (headline m) (t_headline tgt) > 0
          then [jsstr ''Shared headline context tokens: ''
                @ numToString (sharedTokenCount (headline m) (t_headline tgt)) @ jsstr ''.'']
          else [])
       @ (if sharedTokenCount (location m) (t_location tgt) > 0
          then [jsstr ''Shared location context tokens: ''
                @ numToString (sharedTokenCount (location m) (t_location tgt)) @ jsstr ''.'']
          else [])
       @ (if headline m = [] then [jsstr ''Limited headline context available.''] else [])
   \<and> path (scoreMutual src tgt m) = [src, profileUrl m, t_profileUrl tgt]
   \<and> sharedTokenCount a b =
       (if a = [] \<or> b = [] then 0 else card (specTokens a \<inter> specTokens b))"
proof -
  have "mset (buildWarmIntroPathsFromMutuals localeCompare src tgt ms)
          = mset (map (scoreMutual src tgt) ms)"
    by (simp add: buildWarmIntroPathsFromMutuals_def mset_arraySort)
  moreover have "via (scoreMutual src tgt m) = m"
    and "path (scoreMutual src tgt m) = [src, profileUrl m, t_profileUrl tgt]"
    by (simp_all add: scoreMutual_def Let_def)
  moreover have "sharedTokenCount a b =
       (if a = [] \<or> b = [] then 0 else card (specTokens a \<inter> specTokens b))"
    by (simp add: sharedTokenCount_card set_tokenize)
  ultimately show ?thesis
    using score_scoreMutual [of src tgt m] rationale_scoreMutual [of src tgt m]
    by blast
qed

theorem C1_score_rationale_path_witness:
  "mset (buildWarmIntroPathsFromMutuals codeUnitCompare exSource exTarget [exMutualA, exMutualB])
     = mset (map (scoreMutual exSource exTarget) [exMutualA, exMutualB])
   \<and> score (scoreMutual exSource exTarget exMutualB) = 92
   \<and> rationale (scoreMutual exSource exTarget exMutualB) =
       [jsstr ''Mutual appears as a first-degree connection.'',
        jsstr ''Shared headline context tokens: 3.'',
        jsstr ''Shared location context tokens: 2.'']
   \<and> path (scoreMutual exSource exTarget exMutualB) =
       [jsstr ''https://www.linkedin.com/in/me/'',
        jsstr ''https://www.linkedin.com/in/mutual-high/'',
        jsstr ''https://www.linkedin.com/in/target/'']
   \<and> card (specTokens (headline exMutualB) \<inter> specTokens (t_headline exTarget)) = 3"
proof -
  have h: "sharedTokenCount (headline exMutualB) (t_headline exTarget) = 3"
    by (simp add: example_defs string_defs token_defs)
  have l: "sharedTokenCount (location exMutualB) (t_location exTarget) = 2"
    by (simp add: example_defs string_defs token_defs)
  have ne: "headline exMutualB \<noteq> []" "t_headline exTarget \<noteq> []"
    by (simp_all add: example_defs jsstr_def)
  have d: "startsWith (connectionDegree exMutualB) (jsstr ''1'')"
    by (simp add: example_defs string_defs)
  have n: "numToString 3 = jsstr ''3''" "numToString 2 = jsstr ''2''"
    by (simp_all add: numToString.simps jsstr_def)
  have p: "profileUrl exMutualB = jsstr ''https://www.linkedin.com/in/mutual-high/''"
    "t_profileUrl exTarget = jsstr ''https://www.linkedin.com/in/target/''"
    "exSource = jsstr ''https://www.linkedin.com/in/me/''"
    by (simp_all add: example_defs)
  show ?thesis
    using C1_score_rationale_path [of codeUnitCompare exSource exTarget "[exMutualA, exMutualB]"
        exMutualB "headline exMutualB" "t_headline exTarget"]
    by (simp add: h l ne d n p) (simp add: jsstr_def)
qed

text \<open>
  Claim C2. When \<open>localeCompare\<close> is a consistent comparison (total and transitive, as
  every collation is), the result is sorted: of two paths the earlier has the higher
  score, or the same score and a name that \<open>localeCompare\<close> does not put after the
  later one's. In the example of the specification (mutual A of second degree with
  headline Designer in Austin, Texas; mutual B of first degree with the target's
  headline, in San Francisco, California, United States), for any names and links and
  in either input order, B's path comes first, with 92 points against 55.
\<close>

theorem C2_sorted_score_then_name:
  assumes total: "\<And>a b. localeCompare a b \<le> 0 \<or> localeCompare b a \<le> 0"
    and trans: "\<And>a b c. localeCompare a b \<le> 0 \<Longrightarrow> localeCompare b c \<le> 0 \<Longrightarrow> localeCompare a c \<le> 0"
  shows "sorted_wrt
           (\<lambda>p q. score q < score p \<or>
                   (score p = score q \<and> localeCompare (name (via p)) (name (via q)) \<le> 0))
           (buildWarmIntroPathsFromMutuals localeCompare src tgt ms)
         \<and> (let target = \<lparr> t_profileUrl = tu, t_name = tn,
                             t_headline = jsstr ''Partner at Alpha Ventures'',
                             t_location = jsstr ''San Francisco Bay Area'' \<rparr>;
                 A = \<lparr> name = nA, headline = jsstr ''Designer'', location = jsstr ''Austin, Texas'',
                        connectionDegree = jsstr ''2nd'', profileUrl = uA \<rparr>;
                 B = \<lparr> name = nB, headline = jsstr ''Partner at Alpha Ventures'',
                        location = jsstr ''San Francisco, California, United States'',
                        connectionDegree = jsstr ''1st'', profileUrl = uB \<rparr>
             in buildWarmIntroPathsFromMutuals localeCompare src target [A, B]
                  = [scoreMutual src target B, scoreMutual src target A]
                \<and> buildWarmIntroPathsFromMutuals localeCompare src target [B, A]
                  = [scoreMutual src target B, scoreMutual src target A]
                \<and> score (scoreMutual src target B) = 92
                \<and> score (scoreMutual src target A) = 55
                \<and> path (scoreMutual src target B) = [src, uB, tu])"
proof -
  let ?c = "comparePaths localeCompare"
  have t: "\<And>p q. ?c p q \<le> 0 \<or> ?c q p \<le> 0"
    using total by (auto simp: comparePaths_def)
  have tr: "\<And>p q r. ?c p q \<le> 0 \<Longrightarrow> ?c q r \<le> 0 \<Longrightarrow> ?c p r \<le> 0"
    unfolding comparePaths_le using trans by (metis less_trans)
  have "sorted_wrt (\<lambda>p q. ?c p q \<le> 0) (arraySort ?c (map (scoreMutual src tgt) ms))"
    by (rule sorted_arraySort [of ?c, OF t tr])
  then have sorted: "sorted_wrt
           (\<lambda>p q. score q < score p \<or>
                   (score p = score q \<and> localeCompare (name (via p)) (name (via q)) \<le> 0))
           (buildWarmIntroPathsFromMutuals localeCompare src tgt ms)"
    by (simp add: comparePaths_le buildWarmIntroPathsFromMutuals_def)
  have h: "sharedTokenCount (jsstr ''Partner at Alpha Ventures'') (jsstr ''Partner at Alpha Ventures'') = 3"
    "sharedTokenCount (jsstr ''Designer'') (jsstr ''Partner at Alpha Ventures'') = 0"
    by (simp_all add: string_defs token_defs)
  have l: "sharedTokenCount (jsstr ''San Francisco, California, United States'') (jsstr ''San Francisco Bay Area'') = 2"
    "sharedTokenCount (jsstr ''Austin, Texas'') (jsstr ''San Francisco Bay Area'') = 0"
    by (simp_all add: string_defs token_defs)
  have d: "startsWith (jsstr ''1st'') (jsstr ''1'')" "\<not> startsWith (jsstr ''2nd'') (jsstr ''1'')"
    "startsWith (jsstr ''2nd'') (jsstr ''2'')"
    by (simp_all add: string_defs)
  have ne: "jsstr ''Designer'' \<noteq> []" "jsstr ''Partner at Alpha Ventures'' \<noteq> []"
    by (simp_all add: jsstr_def)
  have p: "\<And>t m. path (scoreMutual src t m) = [src, profileUrl m, t_profileUrl t]"
    by (simp add: scoreMutual_def Let_def)
  show ?thesis
    using sorted
    by (simp add: Let_def buildWarmIntroPathsFromMutuals_def comparePaths_def
        score_scoreMutual h l d ne p)
qed

theorem C2_sorted_score_then_name_witness:
  "map (\<lambda>p. name (via p))
     (buildWarmIntroPathsFromMutuals codeUnitCompare exSource exTarget
        [exMutualBob, exMutualA, exMutualB, exMutualAl])
     = [jsstr ''Mutual High'', jsstr ''Al'', jsstr ''Bob'', jsstr ''Mutual Low'']
   \<and> sorted_wrt
       (\<lambda>p q. score q < score p \<or>
               (score p = score q \<and> codeUnitCompare (name (via p)) (name (via q)) \<le> 0))
       (buildWarmIntroPathsFromMutuals codeUnitCompare exSource exTarget
          [exMutualBob, exMutualA, exMutualB, exMutualAl])
   \<and> map score (buildWarmIntroPathsFromMutuals codeUnitCompare exSource exTarget
          [exMutualA, exMutualB]) = [92, 55]"
proof -
  have e: "map (\<lambda>p. name (via p))
     (buildWarmIntroPathsFromMutuals codeUnitCompare exSource exTarget
        [exMutualBob, exMutualA, exMutualB, exMutualAl])
     = [jsstr ''Mutual High'', jsstr ''Al'', jsstr ''Bob'', jsstr ''Mutual Low'']"
    by (simp add: example_defs string_defs token_defs warm_defs)
  have f: "exTarget = \<lparr> t_profileUrl = t_profileUrl exTarget, t_name = t_name exTarget,
                             t_headline = jsstr ''Partner at Alpha Ventures'',
                             t_location = jsstr ''San Francisco Bay Area'' \<rparr>"
    "exMutualA = \<lparr> name = name exMutualA, headline = jsstr ''Designer'', location = jsstr ''Austin, Texas'',
                        connectionDegree = jsstr ''2nd'', profileUrl = profileUrl exMutualA \<rparr>"
    "exMutualB = \<lparr> name = name exMutualB, headline = jsstr ''Partner at Alpha Ventures'',
                        location = jsstr ''San Francisco, California, United States'',
                        connectionDegree = jsstr ''1st'', profileUrl = profileUrl exMutualB \<rparr>"
    by (simp_all add: example_defs)
  show ?thesis
    using C2_sorted_score_then_name [of codeUnitCompare exSource exTarget
        "[exMutualBob, exMutualA, exMutualB, exMutualAl]"
        "t_profileUrl exTarget" "t_name exTarget" "name exMutualA" "profileUrl exMutualA"
        "name exMutualB" "profileUrl exMutualB",
        OF codeUnitCompare_total codeUnitCompare_trans]
    unfolding Let_def f [symmetric]
    by (simp add: e)
qed


lemmas parse_defs =
  regexSearch_def isAsciiLetter_def isWordChar_def boundaryBefore_def boundaryAfter_def
  is123_def isOrdinalSuffix_def lookaheadShort_def degreeTail_def inferDegree_def
  claimedLookahead_def prevAt_def matchesAt_def degreeOfDigit_def splitOn.simps
  noisePrefixes_def isNoise_def stripLeadingBullet_def isDegreeMarker_def
  trailingMarkerTail_def endOrSpace_def markerThenEnd_def markerTokenAt_def
  hasMarkerToken_def cardLines_def parseSearchCardText_def hasMarkerWord_def
  hasNoisePrefix_def

section \<open>Leftmost match\<close>

lemma prevFrom_Suc: "prevFrom prev (c # cs) (Suc i) = prevFrom (Some c) cs i"
  by (cases i) (simp_all add: prevFrom_def)

lemma searchFrom_None:
  "searchFrom m prev s = None \<longleftrightarrow> (\<forall>i\<le>length s. m (prevFrom prev s i) (drop i s) = None)"
proof (induction s arbitrary: prev)
  case Nil
  then show ?case by (simp add: prevFrom_def)
next
  case (Cons c cs)
  have "(\<forall>i\<le>length (c # cs). m (prevFrom prev (c # cs) i) (drop i (c # cs)) = None)
        \<longleftrightarrow> m prev (c # cs) = None \<and> (\<forall>i\<le>length cs. m (prevFrom (Some c) cs i) (drop i cs) = None)"
    (is "?L \<longleftrightarrow> ?R")
  proof
    assume l: ?L
    have "m (prevFrom prev (c # cs) 0) (drop 0 (c # cs)) = None" using l by blast
    moreover have "\<forall>i\<le>length cs. m (prevFrom (Some c) cs i) (drop i cs) = None"
    proof (intro allI impI)
      fix i assume "i \<le> length cs"
      then have "m (prevFrom prev (c # cs) (Suc i)) (drop (Suc i) (c # cs)) = None"
        using l by (metis Suc_le_mono length_Cons)
      then show "m (prevFrom (Some c) cs i) (drop i cs) = None"
        by (simp add: prevFrom_Suc)
    qed
    ultimately show ?R by (simp add: prevFrom_def)
  next
    assume r: ?R
    show ?L
    proof (intro allI impI)
      fix i assume "i \<le> length (c # cs)"
      then show "m (prevFrom prev (c # cs) i) (drop i (c # cs)) = None"
        using r by (cases i) (simp_all add: prevFrom_Suc, simp add: prevFrom_def)
    qed
  qed
  then show ?case using Cons by (simp split: option.splits)
qed

lemma searchFrom_first:
  "k \<le> length s \<Longrightarrow> m (prevFrom prev s k) (drop k s) = Some r \<Longrightarrow>
   (\<And>j. j < k \<Longrightarrow> m (prevFrom prev s j) (drop j s) = None) \<Longrightarrow>
   searchFrom m prev s = Some r"
proof (induction s arbitrary: prev k)
  case Nil
  then show ?case by (simp add: prevFrom_def)
next
  case (Cons c cs)
  show ?case
  proof (cases k)
    case 0
    with Cons.prems show ?thesis by (simp add: prevFrom_def)
  next
    case (Suc k')
    have "m prev (c # cs) = None"
      using Cons.prems(3) [of 0] Suc by (simp add: prevFrom_def)
    moreover have "searchFrom m (Some c) cs = Some r"
    proof (rule Cons.IH [of k'])
      show "k' \<le> length cs" using Cons.prems(1) Suc by simp
      show "m (prevFrom (Some c) cs k') (drop k' cs) = Some r"
        using Cons.prems(2) Suc by (simp add: prevFrom_Suc)
      fix j assume "j < k'"
      then have "m (prevFrom prev (c # cs) (Suc j)) (drop (Suc j) (c # cs)) = None"
        using Cons.prems(3) [of "Suc j"] Suc by simp
      then show "m (prevFrom (Some c) cs j) (drop j cs) = None"
        by (simp add: prevFrom_Suc)
    qed
    ultimately show ?thesis by simp
  qed
qed

lemma prevFrom_None: "prevFrom None s i = prevAt s i"
  by (simp add: prevFrom_def prevAt_def)

lemma regexSearch_None: "regexSearch m s = None \<longleftrightarrow> (\<forall>i. \<not> matchesAt m s i)"
  by (auto simp: regexSearch_def searchFrom_None prevFrom_None matchesAt_def)

lemma regexSearch_Least:
  assumes "matchesAt m s i"
  shows "regexSearch m s = m (prevAt s (LEAST i. matchesAt m s i)) (drop (LEAST i. matchesAt m s i) s)"
proof -
  let ?k = "LEAST i. matchesAt m s i"
  have k: "matchesAt m s ?k" using assms by (rule LeastI)
  then obtain r where r: "m (prevAt s ?k) (drop ?k s) = Some r" and kl: "?k \<le> length s"
    by (auto simp: matchesAt_def)
  have "searchFrom m None s = Some r"
  proof (rule searchFrom_first [of ?k])
    show "?k \<le> length s" by (rule kl)
    show "m (prevFrom None s ?k) (drop ?k s) = Some r" using r by (simp add: prevFrom_None)
    fix j assume "j < ?k"
    then have "\<not> matchesAt m s j" by (rule not_less_Least)
    moreover have "j \<le> length s" using \<open>j < ?k\<close> kl by simp
    ultimately show "m (prevFrom None s j) (drop j s) = None"
      by (simp add: matchesAt_def prevFrom_None)
  qed
  then show ?thesis using r by (simp add: regexSearch_def)
qed

section \<open>Degree inference\<close>

lemma lookaheadShort_iff: "lookaheadShort r \<longleftrightarrow> followedByBreakOrLetter r"
  by (cases r) (simp_all add: lookaheadShort_def followedByBreakOrLetter_def)

lemma startsWith_plus: "startsWith rest (jsstr ''+'') \<longleftrightarrow> rest \<noteq> [] \<and> hd rest = 43"
  by (cases rest) (simp_all add: startsWith_def jsstr_def)

lemma shortOrdinalAt_iff:
  "shortOrdinalAt prev r \<noteq> None \<longleftrightarrow>
     3 \<le> length r \<and> is123 (r ! 0) \<and> isOrdinalSuffix (r ! 1) (r ! 2) \<and>
     (followedByBreakOrLetter (drop 3 r) \<or>
      (3 < length r \<and> r ! 3 = 43 \<and> followedByBreakOrLetter (drop 4 r)))"
proof (cases r)
  case Nil
  then show ?thesis by simp
next
  case c1: (Cons x r1)
  show ?thesis
  proof (cases r1)
    case Nil
    with c1 show ?thesis by simp
  next
    case c2: (Cons y r2)
    show ?thesis
    proof (cases r2)
      case Nil
      with c1 c2 show ?thesis by simp
    next
      case c3: (Cons z rest)
      have "followedByBreakOrLetter rest \<Longrightarrow> \<not> (rest \<noteq> [] \<and> hd rest = 43 \<and> followedByBreakOrLetter (drop 1 rest))
            \<Longrightarrow> followedByBreakOrLetter rest"
        by simp
      show ?thesis
        unfolding c1 c2 c3
        by (cases rest) (auto simp: lookaheadShort_iff startsWith_plus)
    qed
  qed
qed

lemma shortOrdinalAt_Some:
  "shortOrdinalAt prev r = Some g \<Longrightarrow> r \<noteq> [] \<and> is123 (hd r) \<and> (\<exists>g'. g = hd r # g')"
  by (cases "(prev, r)" rule: shortOrdinalAt.cases) (auto split: if_splits)

lemma digitDegreeAt_Some:
  "digitDegreeAt prev r = Some g \<Longrightarrow> r \<noteq> [] \<and> is123 (hd r) \<and> g = [hd r]"
  by (cases "(prev, r)" rule: digitDegreeAt.cases) (auto split: if_splits)

lemma drop_nth3:
  "i + 3 \<le> length raw \<Longrightarrow> drop i raw = raw ! i # raw ! (i + 1) # raw ! (i + 2) # drop (i + 3) raw"
  by (simp add: Cons_nth_drop_Suc [symmetric] numeral_3_eq_3)

lemma matchesAt_shortOrdinal: "matchesAt shortOrdinalAt raw i \<longleftrightarrow> shortOrdinalOccurs raw i"
proof (cases "i + 3 \<le> length raw")
  case True
  then have il: "i \<le> length raw" by simp
  have n: "drop i raw ! 0 = raw ! i" "drop i raw ! 1 = raw ! (i + 1)" "drop i raw ! 2 = raw ! (i + 2)"
    using True by simp_all
  have n3: "3 < length (drop i raw) \<Longrightarrow> drop i raw ! 3 = raw ! (i + 3)"
    using True by simp
  have l: "3 < length (drop i raw) \<longleftrightarrow> i + 3 < length raw" by auto
  show ?thesis
    unfolding matchesAt_def shortOrdinalAt_iff shortOrdinalOccurs_def
    using True il n n3 l by (auto simp: add.commute)
next
  case False
  then have "\<not> 3 \<le> length (drop i raw)" by simp
  then have "shortOrdinalAt (prevAt raw i) (drop i raw) = None"
    using shortOrdinalAt_iff [of "prevAt raw i" "drop i raw"] by blast
  then show ?thesis
    using False by (simp add: matchesAt_def shortOrdinalOccurs_def)
qed

lemma boundaryBefore_prevAt: "i \<le> length raw \<Longrightarrow> boundaryBefore (prevAt raw i) \<longleftrightarrow> startsWord raw i"
  by (simp add: boundaryBefore_def prevAt_def startsWord_def)

lemma ordinalDegreeAt_iff:
  "ordinalDegreeAt prev r \<noteq> None \<longleftrightarrow>
     3 \<le> length r \<and> boundaryBefore prev \<and> is123 (r ! 0) \<and> isOrdinalSuffix (r ! 1) (r ! 2) \<and>
     degreeTail (drop 3 r)"
proof (cases r)
  case Nil
  then show ?thesis by simp
next
  case c1: (Cons x r1)
  show ?thesis
  proof (cases r1)
    case Nil
    with c1 show ?thesis by simp
  next
    case c2: (Cons y r2)
    show ?thesis
      unfolding c1 c2 by (cases r2) auto
  qed
qed

lemma digitDegreeAt_iff:
  "digitDegreeAt prev r \<noteq> None \<longleftrightarrow>
     1 \<le> length r \<and> boundaryBefore prev \<and> is123 (r ! 0) \<and> degreeTail (drop 1 r)"
  by (cases r) auto

lemma matchesAt_ordinalDegree: "matchesAt ordinalDegreeAt raw i \<longleftrightarrow> ordinalDegreeOccurs raw i"
proof (cases "i + 3 \<le> length raw")
  case True
  then have il: "i \<le> length raw" by simp
  have n: "drop i raw ! 0 = raw ! i" "drop i raw ! 1 = raw ! (i + 1)" "drop i raw ! 2 = raw ! (i + 2)"
    using True by simp_all
  show ?thesis
    unfolding matchesAt_def ordinalDegreeAt_iff ordinalDegreeOccurs_def
    using True il n by (auto simp: add.commute boundaryBefore_prevAt)
next
  case False
  then have "\<not> 3 \<le> length (drop i raw)" by simp
  then have "ordinalDegreeAt (prevAt raw i) (drop i raw) = None"
    using ordinalDegreeAt_iff [of "prevAt raw i" "drop i raw"] by blast
  then show ?thesis
    using False by (simp add: matchesAt_def ordinalDegreeOccurs_def)
qed

lemma matchesAt_digitDegree: "matchesAt digitDegreeAt raw i \<longleftrightarrow> digitDegreeOccurs raw i"
proof (cases "i + 1 \<le> length raw")
  case True
  then have il: "i \<le> length raw" by simp
  have n: "drop i raw ! 0 = raw ! i"
    using True by simp
  show ?thesis
    unfolding matchesAt_def digitDegreeAt_iff digitDegreeOccurs_def
    using True il n by (auto simp: add.commute boundaryBefore_prevAt)
next
  case False
  then show ?thesis
    by (auto simp: matchesAt_def digitDegreeAt_iff digitDegreeOccurs_def)
qed

lemma degreeTail_followed: "degreeTail r \<Longrightarrow> followedByBreakOrLetter r"
  by (cases r) (auto simp: degreeTail_def followedByBreakOrLetter_def split: if_splits)

lemma ordinalDegree_is_shortOrdinal: "ordinalDegreeOccurs raw i \<Longrightarrow> shortOrdinalOccurs raw i"
  by (simp add: ordinalDegreeOccurs_def shortOrdinalOccurs_def degreeTail_followed)

lemma toLowerCase_123: "is123 d \<Longrightarrow> toLowerCase (d # g) = d # toLowerCase g"
  by (auto simp: toLowerCase_def lowerUnit_def is123_def isUpperAZ_def)

lemma startsWith_digit:
  "startsWith (d # g) (jsstr ''1'') \<longleftrightarrow> d = 49" "startsWith (d # g) (jsstr ''2'') \<longleftrightarrow> d = 50"
  by (simp_all add: startsWith_def jsstr_def)

lemma nth_Least_hd:
  assumes "matchesAt m raw k" and "m (prevAt raw k) (drop k raw) = Some g" and "drop k raw \<noteq> []"
  shows "hd (drop k raw) = raw ! k"
  using assms by (simp add: hd_drop_conv_nth matchesAt_def)

section \<open>Card text\<close>

lemma splitOn_Nil: "dropWhile (\<lambda>c. c \<noteq> sep) s = [] \<Longrightarrow> splitOn sep s = [s]"
  by (subst splitOn.simps) (simp del: dropWhile_eq_Nil_conv)

lemma splitOn_Cons:
  "dropWhile (\<lambda>c. c \<noteq> sep) s = c # rest \<Longrightarrow>
   splitOn sep s = takeWhile (\<lambda>c. c \<noteq> sep) s # splitOn sep rest"
  by (subst splitOn.simps) simp

lemma splitOn_empty: "splitOn sep [] = [[]]"
  by (simp add: splitOn_Nil)

lemma splitOn_sep: "splitOn sep (sep # cs) = [] # splitOn sep cs"
  by (simp add: splitOn_Cons)

lemma splitOn_not_Nil: "splitOn sep s \<noteq> []"
  by (cases "dropWhile (\<lambda>c. c \<noteq> sep) s") (simp_all add: splitOn_Nil splitOn_Cons)

lemma hd_splitOn: "hd (splitOn sep s) = takeWhile (\<lambda>c. c \<noteq> sep) s"
proof (cases "dropWhile (\<lambda>c. c \<noteq> sep) s")
  case Nil
  then have "takeWhile (\<lambda>c. c \<noteq> sep) s = s" by (metis append_Nil2 takeWhile_dropWhile_id)
  then show ?thesis using splitOn_Nil [OF Nil] by (metis list.sel(1))
next
  case (Cons c rest)
  then show ?thesis by (simp add: splitOn_Cons)
qed

lemma tl_splitOn_other: "c \<noteq> sep \<Longrightarrow> tl (splitOn sep (c # cs)) = tl (splitOn sep cs)"
proof (cases "dropWhile (\<lambda>c. c \<noteq> sep) cs")
  case Nil
  assume "c \<noteq> sep"
  with Nil have "dropWhile (\<lambda>c. c \<noteq> sep) (c # cs) = []" by simp
  with Nil show ?thesis by (simp add: splitOn_Nil del: dropWhile_eq_Nil_conv)
next
  case (Cons d rest)
  assume "c \<noteq> sep"
  with Cons have "dropWhile (\<lambda>c. c \<noteq> sep) (c # cs) = d # rest" by simp
  with Cons show ?thesis by (simp add: splitOn_Cons)
qed

lemma eqCI_length: "eqCI w p \<Longrightarrow> length w = length p"
  by (metis eqCI_def length_map)

lemma foldAscii_32: "foldAscii c = foldAscii d \<Longrightarrow> d \<noteq> 32 \<Longrightarrow> \<not> isUpperAZ d \<Longrightarrow> c \<noteq> 32"
  by (auto simp: foldAscii_def isUpperAZ_def split: if_splits)

lemma takeWhile_word:
  "(\<And>c. c \<in> set w \<Longrightarrow> c \<noteq> 32) \<Longrightarrow> endOrSpace rest \<Longrightarrow> takeWhile (\<lambda>c. c \<noteq> 32) (w @ rest) = w"
  by (cases rest) (auto simp: endOrSpace_def takeWhile_append2 takeWhile_eq_all_conv)

lemma endOrSpace_dropWhile: "endOrSpace (dropWhile (\<lambda>c. c \<noteq> 32) r)"
proof (cases "dropWhile (\<lambda>c. c \<noteq> 32) r")
  case Nil
  then show ?thesis by (simp add: endOrSpace_def del: dropWhile_eq_Nil_conv)
next
  case (Cons c rest)
  then have "c = 32" by (metis (mono_tags, lifting) dropWhile_eq_Cons_conv)
  with Cons show ?thesis by (simp add: endOrSpace_def)
qed

lemma eqCI_no_space:
  assumes "eqCI w p" and "\<And>d. d \<in> set p \<Longrightarrow> d \<noteq> 32 \<and> \<not> isUpperAZ d"
  shows "c \<in> set w \<Longrightarrow> c \<noteq> 32"
proof -
  assume "c \<in> set w"
  then obtain i where i: "i < length w" "w ! i = c" by (auto simp: in_set_conv_nth)
  have l: "length w = length p" using assms(1) by (rule eqCI_length)
  have "map foldAscii w ! i = map foldAscii p ! i" using assms(1) by (simp add: eqCI_def)
  then have "foldAscii c = foldAscii (p ! i)" using i l by simp
  moreover have "p ! i \<in> set p" using i l by simp
  ultimately show ?thesis using assms(2) foldAscii_32 by blast
qed

lemma marker_word:
  assumes p: "\<And>d. d \<in> set p \<Longrightarrow> d \<noteq> 32 \<and> \<not> isUpperAZ d"
  shows "startsWithCI r p \<and> endOrSpace (drop (length p) r) \<longleftrightarrow> eqCI (takeWhile (\<lambda>c. c \<noteq> 32) r) p"
proof
  assume a: "startsWithCI r p \<and> endOrSpace (drop (length p) r)"
  then have e: "eqCI (take (length p) r) p" by (simp add: startsWithCI_def)
  have "takeWhile (\<lambda>c. c \<noteq> 32) (take (length p) r @ drop (length p) r) = take (length p) r"
    by (rule takeWhile_word) (use a e p eqCI_no_space in blast)+
  then show "eqCI (takeWhile (\<lambda>c. c \<noteq> 32) r) p" using e by simp
next
  let ?w = "takeWhile (\<lambda>c. c \<noteq> 32) r"
  assume e: "eqCI ?w p"
  then have l: "length ?w = length p" by (rule eqCI_length)
  have "take (length ?w) r = ?w" and "drop (length ?w) r = dropWhile (\<lambda>c. c \<noteq> 32) r"
    by (metis append_eq_conv_conj takeWhile_dropWhile_id)+
  then have "take (length p) r = ?w" and "drop (length p) r = dropWhile (\<lambda>c. c \<noteq> 32) r"
    by (simp_all add: l)
  then show "startsWithCI r p \<and> endOrSpace (drop (length p) r)"
    using e by (simp add: startsWithCI_def endOrSpace_dropWhile)
qed

lemma startsWithCI_short: "length r < length p \<Longrightarrow> \<not> startsWithCI r p"
  by (auto simp: startsWithCI_def dest: eqCI_length)

lemma markerThenEnd_word: "markerThenEnd r \<longleftrightarrow> isDegreeMarker (takeWhile (\<lambda>c. c \<noteq> 32) r)"
proof -
  let ?w = "takeWhile (\<lambda>c. c \<noteq> 32) r"
  have p: "\<And>d. d \<in> set (jsstr ''1st'') \<Longrightarrow> d \<noteq> 32 \<and> \<not> isUpperAZ d"
    "\<And>d. d \<in> set (jsstr ''2nd'') \<Longrightarrow> d \<noteq> 32 \<and> \<not> isUpperAZ d"
    "\<And>d. d \<in> set (jsstr ''3rd'') \<Longrightarrow> d \<noteq> 32 \<and> \<not> isUpperAZ d"
    "\<And>d. d \<in> set (jsstr ''3rd+'') \<Longrightarrow> d \<noteq> 32 \<and> \<not> isUpperAZ d"
    by (auto simp: jsstr_def isUpperAZ_def)
  have m1: "startsWithCI r (jsstr ''1st'') \<and> endOrSpace (drop 3 r) \<longleftrightarrow> eqCI ?w (jsstr ''1st'')"
    using marker_word [where p = "jsstr ''1st''" and r = r, OF p(1)] by (simp add: jsstr_def eval_nat_numeral)
  have m2: "startsWithCI r (jsstr ''2nd'') \<and> endOrSpace (drop 3 r) \<longleftrightarrow> eqCI ?w (jsstr ''2nd'')"
    using marker_word [where p = "jsstr ''2nd''" and r = r, OF p(2)] by (simp add: jsstr_def eval_nat_numeral)
  have m3: "startsWithCI r (jsstr ''3rd'') \<and> endOrSpace (drop 3 r) \<longleftrightarrow> eqCI ?w (jsstr ''3rd'')"
    using marker_word [where p = "jsstr ''3rd''" and r = r, OF p(3)] by (simp add: jsstr_def eval_nat_numeral)
  have m4: "startsWithCI r (jsstr ''3rd+'') \<and> endOrSpace (drop 4 r) \<longleftrightarrow> eqCI ?w (jsstr ''3rd+'')"
    using marker_word [where p = "jsstr ''3rd+''" and r = r, OF p(4)] by (simp add: jsstr_def eval_nat_numeral)
  have plus: "startsWithCI r (jsstr ''3rd'') \<and> startsWith (drop 3 r) (jsstr ''+'') \<longleftrightarrow> startsWithCI r (jsstr ''3rd+'')"
  proof (cases "length r < 3")
    case True
    then have "\<not> startsWithCI r (jsstr ''3rd'')" "\<not> startsWithCI r (jsstr ''3rd+'')"
      by (simp_all add: startsWithCI_short jsstr_def)
    then show ?thesis by simp
  next
    case False
    then obtain a b c rest where r: "r = a # b # c # rest"
      by (cases r; cases "tl r"; cases "tl (tl r)") auto
    show ?thesis
      unfolding r
      by (cases rest)
         (auto simp: startsWithCI_def startsWith_def eqCI_def jsstr_def foldAscii_def isUpperAZ_def
            eval_nat_numeral split: if_splits)
  qed
  show ?thesis
    unfolding markerThenEnd_def isDegreeMarker_def
    using m1 m2 m3 m4 plus by blast
qed

lemma search_marker_after:
  "searchFrom markerTokenAt (Some p) s \<noteq> None \<longleftrightarrow> list_ex isDegreeMarker (tl (splitOn 32 s))"
proof (induction s arbitrary: p)
  case Nil
  then show ?case by (simp add: markerTokenAt_def splitOn_empty)
next
  case (Cons c cs)
  show ?case
  proof (cases "c = 32")
    case True
    have "list_ex isDegreeMarker (splitOn 32 cs) \<longleftrightarrow>
          isDegreeMarker (hd (splitOn 32 cs)) \<or> list_ex isDegreeMarker (tl (splitOn 32 cs))"
      using splitOn_not_Nil [of 32 cs] by (cases "splitOn 32 cs") simp_all
    then show ?thesis
      using True Cons [of c]
      by (auto simp: markerTokenAt_def splitOn_sep hd_splitOn markerThenEnd_word split: option.splits)
  next
    case False
    then show ?thesis
      using Cons [of c]
      by (auto simp: markerTokenAt_def tl_splitOn_other split: option.splits)
  qed
qed

lemma hasMarkerToken_word: "hasMarkerToken line \<longleftrightarrow> hasMarkerWord line"
proof (cases line)
  case Nil
  then show ?thesis
    by (simp add: hasMarkerToken_def hasMarkerWord_def regexSearch_def markerTokenAt_def
        markerThenEnd_word splitOn_empty)
next
  case (Cons c cs)
  have split: "list_ex isDegreeMarker (splitOn 32 line) \<longleftrightarrow>
        isDegreeMarker (hd (splitOn 32 line)) \<or> list_ex isDegreeMarker (tl (splitOn 32 line))"
    using splitOn_not_Nil [of 32 line] by (cases "splitOn 32 line") simp_all
  have nomark: "\<not> isDegreeMarker []"
    by (simp add: isDegreeMarker_def eqCI_def jsstr_def)
  show ?thesis
  proof (cases "c = 32")
    case True
    have "list_ex isDegreeMarker (splitOn 32 cs) \<longleftrightarrow>
          isDegreeMarker (hd (splitOn 32 cs)) \<or> list_ex isDegreeMarker (tl (splitOn 32 cs))"
      using splitOn_not_Nil [of 32 cs] by (cases "splitOn 32 cs") simp_all
    then show ?thesis
      using True Cons search_marker_after [of c cs] nomark
      by (auto simp: hasMarkerToken_def hasMarkerWord_def regexSearch_def markerTokenAt_def
          splitOn_sep hd_splitOn markerThenEnd_word split: option.splits)
  next
    case False
    then show ?thesis
      using Cons search_marker_after [of c cs] split
      by (auto simp: hasMarkerToken_def hasMarkerWord_def regexSearch_def markerTokenAt_def
          tl_splitOn_other hd_splitOn markerThenEnd_word split: option.splits)
  qed
qed

lemma lowerUnit_not_Nil: "lowerUnit c \<noteq> []"
  by (simp add: lowerUnit_def)

lemma lowerUnit_bullet: "lowerUnit c = [8226] \<Longrightarrow> c = 8226"
  by (auto simp: lowerUnit_def isUpperAZ_def split: if_splits)

lemma toLowerCase_bullet: "toLowerCase line = [8226] \<Longrightarrow> startsWith line [8226]"
proof (cases line)
  case Nil
  assume "toLowerCase line = [8226]"
  with Nil show ?thesis by (simp add: toLowerCase_def)
next
  case (Cons c cs)
  assume a: "toLowerCase line = [8226]"
  then have "lowerUnit c @ toLowerCase cs = [8226]" using Cons by (simp add: toLowerCase_def)
  then have "lowerUnit c = [8226]"
    using lowerUnit_not_Nil [of c] by (cases "lowerUnit c") auto
  then show ?thesis using Cons lowerUnit_bullet by (simp add: startsWith_def)
qed

lemma isNoise_prefix: "\<not> startsWith line [8226] \<Longrightarrow> isNoise line \<longleftrightarrow> hasNoisePrefix line"
  using toLowerCase_bullet [of line] by (auto simp: isNoise_def hasNoisePrefix_def Let_def)

text \<open>
  Claim C5, amended. The result follows this precedence. (1) When a short ordinal (a
  digit 1, 2 or 3 with st, nd or rd in any letter case, and at most one plus sign)
  stands somewhere in the text in front of white space, the end of the text, or an ASCII
  letter of either case, the leftmost such ordinal decides by its digit. (2) An ordinal
  with a degree phrase never decides: where it stands, rule (1) matches. (3) Otherwise
  the leftmost digit with a degree phrase decides. (4) Otherwise the result is unknown.
\<close>

theorem C5_degree_precedence:
  "inferDegree raw =
     (if \<exists>i. shortOrdinalOccurs raw i
      then degreeOfDigit (raw ! (LEAST i. shortOrdinalOccurs raw i))
      else if \<exists>i. digitDegreeOccurs raw i
      then degreeOfDigit (raw ! (LEAST i. digitDegreeOccurs raw i))
      else jsstr ''unknown'')
   \<and> (\<forall>i. ordinalDegreeOccurs raw i \<longrightarrow> shortOrdinalOccurs raw i)"
proof -
  have sub: "\<forall>i. ordinalDegreeOccurs raw i \<longrightarrow> shortOrdinalOccurs raw i"
    by (simp add: ordinalDegree_is_shortOrdinal)
  have main: "inferDegree raw =
     (if \<exists>i. shortOrdinalOccurs raw i
      then degreeOfDigit (raw ! (LEAST i. shortOrdinalOccurs raw i))
      else if \<exists>i. digitDegreeOccurs raw i
      then degreeOfDigit (raw ! (LEAST i. digitDegreeOccurs raw i))
      else jsstr ''unknown'')"
  proof (cases "\<exists>i. shortOrdinalOccurs raw i")
    case True
    then obtain i where i: "matchesAt shortOrdinalAt raw i"
      by (auto simp: matchesAt_shortOrdinal)
    let ?k = "LEAST i. matchesAt shortOrdinalAt raw i"
    have k: "matchesAt shortOrdinalAt raw ?k" using i by (rule LeastI)
    then obtain g where g: "shortOrdinalAt (prevAt raw ?k) (drop ?k raw) = Some g"
      by (auto simp: matchesAt_def)
    from shortOrdinalAt_Some [OF g] obtain g' where
      ne: "drop ?k raw \<noteq> []" and d: "is123 (hd (drop ?k raw))" and gg: "g = hd (drop ?k raw) # g'"
      by blast
    have hdk: "hd (drop ?k raw) = raw ! ?k" by (rule nth_Least_hd [OF k g ne])
    have "regexSearch shortOrdinalAt raw = Some g"
      using regexSearch_Least [OF i] g by simp
    then have "inferDegree raw = degreeOfDigit (raw ! ?k)"
      using d gg hdk
      by (simp add: inferDegree_def Let_def toLowerCase_123 startsWith_digit degreeOfDigit_def)
    then show ?thesis using True by (simp add: matchesAt_shortOrdinal)
  next
    case False
    then have n1: "regexSearch shortOrdinalAt raw = None"
      by (simp add: regexSearch_None matchesAt_shortOrdinal)
    from False sub have n2: "regexSearch ordinalDegreeAt raw = None"
      by (auto simp: regexSearch_None matchesAt_ordinalDegree)
    show ?thesis
    proof (cases "\<exists>i. digitDegreeOccurs raw i")
      case True
      then obtain i where i: "matchesAt digitDegreeAt raw i"
        by (auto simp: matchesAt_digitDegree)
      let ?k = "LEAST i. matchesAt digitDegreeAt raw i"
      have k: "matchesAt digitDegreeAt raw ?k" using i by (rule LeastI)
      then obtain g where g: "digitDegreeAt (prevAt raw ?k) (drop ?k raw) = Some g"
        by (auto simp: matchesAt_def)
      from digitDegreeAt_Some [OF g] have
        ne: "drop ?k raw \<noteq> []" and d: "is123 (hd (drop ?k raw))" and gg: "g = [hd (drop ?k raw)]"
        by blast+
      have hdk: "hd (drop ?k raw) = raw ! ?k" by (rule nth_Least_hd [OF k g ne])
      have "regexSearch digitDegreeAt raw = Some g"
        using regexSearch_Least [OF i] g by simp
      then have "inferDegree raw = degreeOfDigit (raw ! ?k)"
        using d gg hdk n1 n2
        by (auto simp: inferDegree_def degreeOfDigit_def jsstr_def is123_def)
      then show ?thesis using True False by (simp add: matchesAt_digitDegree)
    next
      case nd: False
      then have "regexSearch digitDegreeAt raw = None"
        by (simp add: regexSearch_None matchesAt_digitDegree)
      then show ?thesis using False nd n1 n2 by (auto simp: inferDegree_def)
    qed
  qed
  show ?thesis using main sub by blast
qed


theorem C5_degree_precedence_witness:
  "shortOrdinalOccurs exDegreeText 9
   \<and> ordinalDegreeOccurs exDegreeText 9
   \<and> inferDegree exDegreeText = degreeOfDigit (exDegreeText ! (LEAST i. shortOrdinalOccurs exDegreeText i))
   \<and> inferDegree exDegreeText = jsstr ''2nd''"
proof -
  have o: "shortOrdinalOccurs exDegreeText 9" "ordinalDegreeOccurs exDegreeText 9"
    by (simp_all add: exDegreeText_def shortOrdinalOccurs_def ordinalDegreeOccurs_def
        followedByBreakOrLetter_def startsWord_def parse_defs string_defs)
  then have "\<exists>i. shortOrdinalOccurs exDegreeText i" by blast
  then have "inferDegree exDegreeText = degreeOfDigit (exDegreeText ! (LEAST i. shortOrdinalOccurs exDegreeText i))"
    using C5_degree_precedence [of exDegreeText] by simp
  moreover have "inferDegree exDegreeText = jsstr ''2nd''"
    by (simp add: exDegreeText_def parse_defs string_defs)
  ultimately show ?thesis using o by simp
qed

text \<open>
  The claim as stated fails: in \<open>Editor at 21stcentury media\<close> the ordinal \<open>1st\<close> has a
  lower-case letter behind it. By the claim's rules nothing matches and the degree is
  unknown; the code answers first degree.
\<close>

theorem C5_lowercase_counterexample:
  "inferDegree exLowercaseFollows = jsstr ''1st''
   \<and> claimedInferDegree exLowercaseFollows = jsstr ''unknown''"
  by (simp add: exLowercaseFollows_def claimedInferDegree_def parse_defs string_defs)

text \<open>
  Claim C6, amended. The parser has no failing branch. The lines are the pieces of the
  text between line feeds, with every run of white space collapsed to one space,
  trimmed, and the empty ones dropped. Without lines, the three fields are empty.
  Otherwise the name is the first line without its leading bullet and without its
  trailing degree marker; of the other lines those are dropped that start with a
  bullet, that have a degree marker among their space-separated words (also amid other
  words), or whose lower-cased text starts with one of the eleven prefixes; the first
  line kept is the headline and the second the location, empty when there is none.
\<close>

theorem C6_card_text:
  "parseSearchCardText raw =
     (case cardLines raw of
        [] \<Rightarrow> \<lparr> p_name = [], p_headline = [], p_location = [] \<rparr>
      | first # rest \<Rightarrow>
          (let kept = filter (\<lambda>line. \<not> startsWith line [8226] \<and> \<not> hasMarkerWord line
                                     \<and> \<not> hasNoisePrefix line) rest
           in \<lparr> p_name = trim (stripTrailingMarker (stripLeadingBullet first)),
                p_headline = (if kept = [] then [] else kept ! 0),
                p_location = (if length kept < 2 then [] else kept ! 1) \<rparr>))
   \<and> parseSearchCardText [] = \<lparr> p_name = [], p_headline = [], p_location = [] \<rparr>"
proof -
  have f: "\<And>rest. filter (\<lambda>line. if startsWith line [8226] then False
                                 else if hasMarkerToken line then False
                                 else \<not> isNoise line) rest
         = filter (\<lambda>line. \<not> startsWith line [8226] \<and> \<not> hasMarkerWord line
                                     \<and> \<not> hasNoisePrefix line) rest"
    by (rule filter_cong) (auto simp: hasMarkerToken_word isNoise_prefix)
  have h: "\<And>kept :: jsstring list. (case kept of [] \<Rightarrow> [] | h # _ \<Rightarrow> h) = (if kept = [] then [] else kept ! 0)"
    by (simp split: list.splits)
  have l: "\<And>kept :: jsstring list. (if drop 1 kept = [] then [] else drop 1 kept ! 0)
               = (if length kept < 2 then [] else kept ! 1)"
  proof -
    fix kept :: "jsstring list"
    show "(if drop 1 kept = [] then [] else drop 1 kept ! 0) = (if length kept < 2 then [] else kept ! 1)"
      by (cases kept; cases "tl kept") auto
  qed
  have e: "cardLines [] = []"
    by (simp add: cardLines_def splitOn_empty trim_def)
  have "parseSearchCardText [] = \<lparr> p_name = [], p_headline = [], p_location = [] \<rparr>"
    by (simp add: parseSearchCardText_def e)
  moreover have "parseSearchCardText raw =
     (case cardLines raw of
        [] \<Rightarrow> \<lparr> p_name = [], p_headline = [], p_location = [] \<rparr>
      | first # rest \<Rightarrow>
          (let kept = filter (\<lambda>line. \<not> startsWith line [8226] \<and> \<not> hasMarkerWord line
                                     \<and> \<not> hasNoisePrefix line) rest
           in \<lparr> p_name = trim (stripTrailingMarker (stripLeadingBullet first)),
                p_headline = (if kept = [] then [] else kept ! 0),
                p_location = (if length kept < 2 then [] else kept ! 1) \<rparr>))"
    unfolding parseSearchCardText_def Let_def f h l ..
  ultimately show ?thesis by blast
qed

theorem C6_card_text_witness:
  "parseSearchCardText exBulletCard =
     \<lparr> p_name = jsstr ''Jane Doe'', p_headline = jsstr ''Engineer'', p_location = jsstr ''Austin'' \<rparr>
   \<and> cardLines exBulletCard =
       [[8226, 32] @ jsstr ''Jane Doe '' @ [183] @ jsstr '' 2nd'', jsstr ''Engineer'',
        jsstr ''View profile'', jsstr ''3rd+'', jsstr ''Austin'']
   \<and> hasNoisePrefix (jsstr ''View profile'')
   \<and> hasMarkerWord (jsstr ''3rd+'')"
proof -
  have c: "cardLines exBulletCard =
       [[8226, 32] @ jsstr ''Jane Doe '' @ [183] @ jsstr '' 2nd'', jsstr ''Engineer'',
        jsstr ''View profile'', jsstr ''3rd+'', jsstr ''Austin'']"
    by (simp add: exBulletCard_def parse_defs string_defs)
  have k: "hasNoisePrefix (jsstr ''View profile'')" "hasMarkerWord (jsstr ''3rd+'')"
    "\<not> hasNoisePrefix (jsstr ''Engineer'')" "\<not> hasMarkerWord (jsstr ''Engineer'')"
    "\<not> hasNoisePrefix (jsstr ''Austin'')" "\<not> hasMarkerWord (jsstr ''Austin'')"
    by (simp_all add: parse_defs string_defs)
  have s: "\<not> startsWith (jsstr ''Engineer'') [8226]" "\<not> startsWith (jsstr ''Austin'') [8226]"
    by (simp_all add: string_defs)
  have n: "trim (stripTrailingMarker (stripLeadingBullet
             ([8226, 32] @ jsstr ''Jane Doe '' @ [183] @ jsstr '' 2nd''))) = jsstr ''Jane Doe''"
    by (simp add: parse_defs string_defs)
  show ?thesis
    using C6_card_text [of exBulletCard] n
    by (simp add: c k s Let_def)
qed

text \<open>
  The claim as stated fails: the second line of the card \<open>Jane Doe / Our 1st hire /
  Austin, Texas\<close> has a degree marker amid other words and is not a marker itself, yet
  it is dropped, and the third line becomes the headline.
\<close>

theorem C6_marker_amid_words_counterexample:
  "cardLines exCardText = [jsstr ''Jane Doe'', jsstr ''Our 1st hire'', jsstr ''Austin, Texas'']
   \<and> \<not> isOnlyDegreeMarker (jsstr ''Our 1st hire'')
   \<and> p_headline (parseSearchCardText exCardText) = jsstr ''Austin, Texas''
   \<and> p_location (parseSearchCardText exCardText) = []"
  by (simp add: exCardText_def isOnlyDegreeMarker_def parse_defs string_defs)


section \<open>URLs\<close>

lemmas url_defs =
  linkedinBase_def isC0OrSpace_def isTabOrNewline_def urlPreprocess_def isSchemeChar_def
  splitScheme_def isSlash_def isPathEnd_def isAuthorityEnd_def isLDH_def plainLabel_def
  plainHost_def isPathEncode_def hexDigit_def percentEncodeUnit_def percentEncodePath_def
  isSingleDot_def isDoubleDot_def pathPart_def pathState_def serializePath_def
  modelledPath_def specialUrl_def afterAuthority_def authorityState_def baseRelative_def
  relativeState_def whatwgURL_def noExt_def isActivityFormatError_def assertLinkedInUrl_def
  normalizeProfileUrl_def isSegmentEnd_def matchInSegment_def toCanonicalProfileUrl_def
  profileTailAt_def stripSlashes_def isHttpUrl_def buildProfileUrl_def wordThenDigitsAt_def
  activityColonDashAt_def activityDashSpaceAt_def urnActivityAt_def tenDigitsAt_def
  allDigits_def extractActivityId_def buildPostUrl_def

lemmas all_defs = url_defs parse_defs string_defs

lemma endsWith_iff: "endsWith s p \<longleftrightarrow> (\<exists>pre. s = pre @ p)"
proof
  assume "endsWith s p"
  then have "s = take (length s - length p) s @ p"
    by (metis append_take_drop_id endsWith_def)
  then show "\<exists>pre. s = pre @ p" ..
next
  assume "\<exists>pre. s = pre @ p"
  then show "endsWith s p" by (auto simp: endsWith_def)
qed

text \<open>
  Claim C9. For every URL parser: the guard returns exactly when the input parses and
  its host name is \<open>linkedin.com\<close> or something followed by \<open>.linkedin.com\<close>; in every
  other case, also when the input does not parse, it raises an error. A host that only
  ends with the letters of the domain, such as \<open>evil-linkedin.com\<close>, is rejected.
\<close>

theorem C9_same_site_guard:
  "(assertLinkedInUrl newURL u = Inr ()) =
     (\<exists>parsed. newURL u None = Some parsed \<and>
        (hostname parsed = jsstr ''linkedin.com'' \<or>
         (\<exists>sub. hostname parsed = sub @ jsstr ''.linkedin.com'')))
   \<and> (\<exists>e. assertLinkedInUrl newURL u = Inl e) =
       (\<not> (\<exists>parsed. newURL u None = Some parsed \<and>
            (hostname parsed = jsstr ''linkedin.com'' \<or>
             (\<exists>sub. hostname parsed = sub @ jsstr ''.linkedin.com''))))
   \<and> (newURL u None = None \<longrightarrow> assertLinkedInUrl newURL u = Inl (InvalidUrl u))
   \<and> (\<forall>parsed. newURL u None = Some parsed \<and> hostname parsed = jsstr ''evil-linkedin.com''
         \<longrightarrow> assertLinkedInUrl newURL u = Inl (NotLinkedInUrl u))"
proof -
  have evil: "jsstr ''evil-linkedin.com'' \<noteq> jsstr ''linkedin.com''"
    "\<not> endsWith (jsstr ''evil-linkedin.com'') (jsstr ''.linkedin.com'')"
    by (simp_all add: jsstr_def endsWith_def)
  show ?thesis
    by (cases "newURL u None")
       (auto simp: assertLinkedInUrl_def Let_def endsWith_iff [symmetric] evil)
qed

theorem C9_same_site_guard_witness:
  "assertLinkedInUrl (whatwgURL noExt) exEvilUrl = Inl (NotLinkedInUrl exEvilUrl)
   \<and> assertLinkedInUrl (whatwgURL noExt) exProfileUrl = Inr ()
   \<and> assertLinkedInUrl (whatwgURL noExt) (jsstr ''https://'') = Inl (InvalidUrl (jsstr ''https://''))"
proof -
  have e: "whatwgURL noExt exEvilUrl None =
      Some \<lparr> hrefOrigin = jsstr ''https://evil-linkedin.com'', hostname = jsstr ''evil-linkedin.com'',
             pathname = jsstr ''/in/jane-doe/'' \<rparr>"
    by (simp add: exEvilUrl_def all_defs)
  have p: "whatwgURL noExt exProfileUrl None =
      Some \<lparr> hrefOrigin = jsstr ''https://www.linkedin.com'', hostname = jsstr ''www.linkedin.com'',
             pathname = jsstr ''/in/jane-doe/'' \<rparr>"
    by (simp add: exProfileUrl_def all_defs)
  have s: "jsstr ''www.linkedin.com'' = jsstr ''www'' @ jsstr ''.linkedin.com''"
    by (simp add: jsstr_def)
  have n: "whatwgURL noExt (jsstr ''https://'') None = None"
    by (simp add: all_defs)
  have 1: "assertLinkedInUrl (whatwgURL noExt) exEvilUrl = Inl (NotLinkedInUrl exEvilUrl)"
    using C9_same_site_guard [of "whatwgURL noExt" exEvilUrl] e by simp
  have 2: "assertLinkedInUrl (whatwgURL noExt) exProfileUrl = Inr ()"
    using C9_same_site_guard [of "whatwgURL noExt" exProfileUrl] p s by auto
  have 3: "assertLinkedInUrl (whatwgURL noExt) (jsstr ''https://'') = Inl (InvalidUrl (jsstr ''https://''))"
    using C9_same_site_guard [of "whatwgURL noExt" "jsstr ''https://''"] n by simp
  show ?thesis using 1 2 3 by simp
qed

subsection \<open>Post links\<close>

lemma regexSearch_matches: "matchesAt m s i \<Longrightarrow> regexSearch m s \<noteq> None"
  using regexSearch_None [of m s] by blast

lemma wordThenDigitsAt_Some:
  "wordThenDigitsAt w sep prev r = Some d \<Longrightarrow> allDigits d"
  by (auto simp: wordThenDigitsAt_def allDigits_def list_all_iff split: if_splits list.splits
      dest: set_takeWhileD)

lemma tenDigitsAt_Some: "tenDigitsAt prev r = Some d \<Longrightarrow> allDigits d \<and> 10 \<le> length d"
  by (auto simp: tenDigitsAt_def allDigits_def list_all_iff split: if_splits dest: set_takeWhileD)

lemma searchFrom_Some_prop:
  "searchFrom m prev s = Some d \<Longrightarrow> (\<And>p r x. m p r = Some x \<Longrightarrow> Q x) \<Longrightarrow> Q d"
  by (induction s arbitrary: prev) (auto split: option.splits)

lemma regexSearch_digits:
  "regexSearch (wordThenDigitsAt w sep) s = Some d \<Longrightarrow> allDigits d"
  unfolding regexSearch_def
  by (erule searchFrom_Some_prop) (rule wordThenDigitsAt_Some)

lemma regexSearch_tenDigits:
  "regexSearch tenDigitsAt s = Some d \<Longrightarrow> allDigits d \<and> 10 \<le> length d"
  unfolding regexSearch_def
  by (erule searchFrom_Some_prop) (rule tenDigitsAt_Some)

lemma allDigits_not_http: "allDigits s \<Longrightarrow> \<not> isHttpUrl s"
  by (cases s) (auto simp: allDigits_def isHttpUrl_def startsWith_def jsstr_def isDigit_def)

lemma urn_needs_letter:
  assumes "list_all isDigit s"
  shows "searchFrom urnActivityAt prev s = None"
  using assms
proof (induction s arbitrary: prev)
  case Nil
  then show ?case
    by (simp add: urnActivityAt_def wordThenDigitsAt_def startsWithCI_def eqCI_def jsstr_def)
next
  case (Cons c cs)
  then have "isDigit c" by simp
  then have "urnActivityAt prev (c # cs) = None"
    by (auto simp: urnActivityAt_def wordThenDigitsAt_def startsWithCI_def eqCI_def jsstr_def
        foldAscii_def isDigit_def isUpperAZ_def)
  then show ?case using Cons by simp
qed

text \<open>The four accepted forms of the claim, and the errors, for every URL parser.\<close>

lemma buildPostUrl_numeric:
  "allDigits (trim a) \<Longrightarrow>
   buildPostUrl newURL a = Inr (jsstr ''https://www.linkedin.com/feed/update/urn:li:activity:'' @ trim a @ jsstr ''/'')"
  using allDigits_not_http [of "trim a"] urn_needs_letter [of "trim a" None]
  by (auto simp: buildPostUrl_def Let_def extractActivityId_def regexSearch_def allDigits_def)

lemma buildPostUrl_urn:
  "\<not> isHttpUrl (trim a) \<Longrightarrow> regexSearch urnActivityAt (trim a) = Some d \<Longrightarrow>
   allDigits d \<and>
   buildPostUrl newURL a = Inr (jsstr ''https://www.linkedin.com/feed/update/urn:li:activity:'' @ d @ jsstr ''/'')"
proof -
  assume h: "\<not> isHttpUrl (trim a)" and m: "regexSearch urnActivityAt (trim a) = Some d"
  have d: "allDigits d" using m unfolding urnActivityAt_def by (rule regexSearch_digits)
  have "trim a \<noteq> []" using m
    by (auto simp: regexSearch_def urnActivityAt_def wordThenDigitsAt_def startsWithCI_def eqCI_def jsstr_def)
  then show ?thesis using h m d
    by (simp add: buildPostUrl_def Let_def extractActivityId_def)
qed

lemma buildPostUrl_path_token:
  "isHttpUrl (trim a) \<Longrightarrow> newURL (trim a) None = Some u \<Longrightarrow>
   regexSearch activityColonDashAt (pathname u) = Some d \<Longrightarrow>
   allDigits d \<and>
   buildPostUrl newURL a = Inr (jsstr ''https://www.linkedin.com/feed/update/urn:li:activity:'' @ d @ jsstr ''/'')"
proof -
  assume h: "isHttpUrl (trim a)" and p: "newURL (trim a) None = Some u"
    and m: "regexSearch activityColonDashAt (pathname u) = Some d"
  have d: "allDigits d" using m unfolding activityColonDashAt_def by (rule regexSearch_digits)
  have "trim a \<noteq> []" using h by (auto simp: isHttpUrl_def startsWith_def jsstr_def)
  then show ?thesis using h p m d
    by (simp add: buildPostUrl_def Let_def extractActivityId_def)
qed

lemma buildPostUrl_ten_digits:
  "isHttpUrl (trim a) \<Longrightarrow> newURL (trim a) None = Some u \<Longrightarrow>
   regexSearch activityColonDashAt (pathname u) = None \<Longrightarrow>
   regexSearch activityDashSpaceAt (pathname u) = None \<Longrightarrow>
   regexSearch tenDigitsAt (pathname u) = Some d \<Longrightarrow>
   allDigits d \<and> 10 \<le> length d \<and>
   buildPostUrl newURL a = Inr (jsstr ''https://www.linkedin.com/feed/update/urn:li:activity:'' @ d @ jsstr ''/'')"
proof -
  assume h: "isHttpUrl (trim a)" and p: "newURL (trim a) None = Some u"
    and n: "regexSearch activityColonDashAt (pathname u) = None"
      "regexSearch activityDashSpaceAt (pathname u) = None"
    and m: "regexSearch tenDigitsAt (pathname u) = Some d"
  have d: "allDigits d \<and> 10 \<le> length d" using m by (rule regexSearch_tenDigits)
  have "trim a \<noteq> []" using h by (auto simp: isHttpUrl_def startsWith_def jsstr_def)
  then show ?thesis using h p n m d
    by (simp add: buildPostUrl_def Let_def extractActivityId_def)
qed

lemma buildPostUrl_errors:
  "buildPostUrl newURL a = Inl e \<Longrightarrow>
     (e = ActivityIdEmpty \<and> trim a = []) \<or>
     (e = ActivityIdNotNumeric \<and> trim a \<noteq> []) \<or>
     (e = TypeErrorInvalidUrl \<and> isHttpUrl (trim a) \<and> newURL (trim a) None = None)"
  by (auto simp: buildPostUrl_def Let_def extractActivityId_def split: if_splits option.splits sum.splits)

lemma buildPostUrl_result:
  "buildPostUrl newURL a = Inr r \<Longrightarrow>
     \<exists>d. allDigits d \<and> r = jsstr ''https://www.linkedin.com/feed/update/urn:li:activity:'' @ d @ jsstr ''/''"
  by (auto simp: buildPostUrl_def Let_def split: if_splits sum.splits)

text \<open>
  Claim C4 at its failing input. The text \<open>https://\<close> is not empty, starts like a link
  and holds no digits, so the claim wants the error about the format of the activity
  id. The URL parser rejects it (a special scheme without a host), and \<open>buildPostUrl\<close>,
  which calls the parser outside any \<open>try\<close>, lets the parser's \<open>TypeError\<close> through.
  The slug link of the claim does give the canonical link.
\<close>

theorem C4_unparsable_link_type_error:
  "buildPostUrl (whatwgURL ext) (jsstr ''https://'') = Inl TypeErrorInvalidUrl
   \<and> \<not> isActivityFormatError TypeErrorInvalidUrl
   \<and> buildPostUrl (whatwgURL noExt)
        (jsstr ''https://www.linkedin.com/posts/john-doe-activity-7291234567890123456-abcd'')
      = Inr (jsstr ''https://www.linkedin.com/feed/update/urn:li:activity:7291234567890123456/'')"
  by (simp add: all_defs)

subsection \<open>Profile links\<close>

lemma vanityChar_facts:
  assumes "vanityChar c"
  shows "notSpaceJS c" "c \<noteq> 47" "c \<noteq> 92" "\<not> isPathEnd c" "\<not> isSegmentEnd c"
    "\<not> isPathEncode c" "c < 128" "c \<noteq> 94" "\<not> isC0OrSpace c" "\<not> isTabOrNewline c"
    "c \<noteq> 63" "c \<noteq> 35"
  using assms
  by (auto simp: vanityChar_def notSpaceJS_def isSpaceJS_def isPathEnd_def isSegmentEnd_def
      isPathEncode_def isC0OrSpace_def isTabOrNewline_def)

lemma safeVanity_chars: "safeVanity w \<Longrightarrow> c \<in> set w \<Longrightarrow> vanityChar c"
  by (simp add: safeVanity_def list_all_iff)

lemma safe_trim: "safeVanity w \<Longrightarrow> trim w = w"
  by (rule trim_id) (auto dest: safeVanity_chars vanityChar_facts)

lemma startsWith_set: "startsWith s p \<Longrightarrow> set p \<subseteq> set s"
  by (metis set_take_subset startsWith_def)

lemma safe_not_http: "safeVanity w \<Longrightarrow> \<not> isHttpUrl w"
proof
  assume s: "safeVanity w" and "isHttpUrl w"
  then have "set (jsstr ''http://'') \<subseteq> set w \<or> set (jsstr ''https://'') \<subseteq> set w"
    by (auto simp: isHttpUrl_def dest: startsWith_set)
  then have "47 \<in> set w" by (auto simp: jsstr_def)
  then show False using s safeVanity_chars vanityChar_facts(2) by blast
qed

lemma stripSlashes_none: "47 \<notin> set s \<Longrightarrow> stripSlashes s = s"
proof -
  assume a: "47 \<notin> set s"
  have "dropWhile (\<lambda>c. c = 47) s = s" by (rule dropWhile_none) (use a in auto)
  moreover have "dropWhile (\<lambda>c. c = 47) (rev s) = rev s" by (rule dropWhile_none) (use a in auto)
  ultimately show ?thesis by (simp add: stripSlashes_def)
qed

lemma buildProfileUrl_bare:
  assumes "safeVanity (trim v)"
  shows "buildProfileUrl newURL v = Inr (canonicalProfile (trim v))"
proof -
  let ?w = "trim v"
  have "?w \<noteq> []" using assms by (simp add: safeVanity_def)
  moreover have "\<not> isHttpUrl ?w" using assms by (rule safe_not_http)
  moreover have "stripSlashes ?w = ?w"
    by (rule stripSlashes_none) (use assms safeVanity_chars vanityChar_facts(2) in blast)
  ultimately show ?thesis
    by (simp add: buildProfileUrl_def Let_def canonicalProfile_def)
qed

lemma takeWhile_through:
  "(\<And>c. c \<in> set w \<Longrightarrow> P c) \<Longrightarrow> takeWhile P (w @ r) = w @ takeWhile P r"
  by (simp add: takeWhile_append2)

lemma dropWhile_through:
  "(\<And>c. c \<in> set w \<Longrightarrow> P c) \<Longrightarrow> dropWhile P (w @ r) = dropWhile P r"
  by (simp add: dropWhile_append2)

lemma splitOn_through:
  "sep \<notin> set w \<Longrightarrow> splitOn sep (w @ sep # r) = w # splitOn sep r"
proof -
  assume a: "sep \<notin> set w"
  have "dropWhile (\<lambda>c. c \<noteq> sep) (w @ sep # r) = dropWhile (\<lambda>c. c \<noteq> sep) (sep # r)"
    by (rule dropWhile_append2) (use a in auto)
  then have "dropWhile (\<lambda>c. c \<noteq> sep) (w @ sep # r) = sep # r" by simp
  moreover have "takeWhile (\<lambda>c. c \<noteq> sep) (w @ sep # r) = w @ takeWhile (\<lambda>c. c \<noteq> sep) (sep # r)"
    by (rule takeWhile_append2) (use a in auto)
  then have "takeWhile (\<lambda>c. c \<noteq> sep) (w @ sep # r) = w" by simp
  ultimately show ?thesis by (simp add: splitOn_Cons)
qed

lemma percentEncodePath_safe:
  "(\<And>c. c \<in> set w \<Longrightarrow> \<not> isPathEncode c) \<Longrightarrow> percentEncodePath w = w"
  by (induction w) (auto simp: percentEncodePath_def percentEncodeUnit_def)

lemma pathState_vanity:
  assumes "safeVanity w"
  shows "serializePath (pathState (jsstr ''in/'' @ w @ jsstr ''/'')) = jsstr ''/in/'' @ w @ jsstr ''/''"
    and "modelledPath (jsstr ''in/'' @ w @ jsstr ''/'')"
proof -
  let ?ps = "jsstr ''in/'' @ w @ jsstr ''/''"
  have np: "\<And>c. c \<in> set ?ps \<Longrightarrow> \<not> isPathEnd c"
    using assms safeVanity_chars vanityChar_facts(4) by (auto simp: jsstr_def isPathEnd_def)
  then have pp: "pathPart ?ps = ?ps"
    unfolding pathPart_def by (simp add: takeWhile_eq_all_conv)
  have nb: "map (\<lambda>c. if c = 92 then 47 else c) ?ps = ?ps"
    by (rule map_idI) (use assms safeVanity_chars vanityChar_facts(3) in \<open>auto simp: jsstr_def\<close>)
  have sp: "splitOn 47 ?ps = [jsstr ''in'', w, []]"
  proof -
    have "splitOn 47 (w @ 47 # []) = w # splitOn 47 []"
      by (rule splitOn_through) (use assms safeVanity_chars vanityChar_facts(2) in blast)
    moreover have "splitOn 47 (jsstr ''in'' @ 47 # (w @ [47])) = jsstr ''in'' # splitOn 47 (w @ [47])"
      by (rule splitOn_through) (simp add: jsstr_def)
    ultimately show ?thesis by (simp add: jsstr_def splitOn_empty)
  qed
  have ew: "percentEncodePath w = w"
    by (rule percentEncodePath_safe) (use assms safeVanity_chars vanityChar_facts(6) in blast)
  have ei: "percentEncodePath (jsstr ''in'') = jsstr ''in''" "percentEncodePath [] = []"
    by (simp_all add: percentEncodePath_def percentEncodeUnit_def isPathEncode_def jsstr_def)
  have dots: "\<not> isSingleDot w" "\<not> isDoubleDot w" using assms by (simp_all add: safeVanity_def)
  have di: "\<not> isSingleDot (jsstr ''in'')" "\<not> isDoubleDot (jsstr ''in'')"
    "\<not> isSingleDot []" "\<not> isDoubleDot []"
    by (simp_all add: isSingleDot_def isDoubleDot_def eqCI_def jsstr_def)
  have "pathState ?ps = pathSegments [] [jsstr ''in'', w, []]"
    unfolding pathState_def pp nb sp ..
  then have "pathState ?ps = [jsstr ''in'', w, []]"
    by (simp add: ew ei dots di)
  then show "serializePath (pathState ?ps) = jsstr ''/in/'' @ w @ jsstr ''/''"
    by (simp add: serializePath_def jsstr_def)
  have "\<And>c. c \<in> set ?ps \<Longrightarrow> c < 128 \<and> c \<noteq> 94"
    using assms safeVanity_chars vanityChar_facts(7,8) by (auto simp: jsstr_def)
  then show "modelledPath ?ps"
    by (simp add: modelledPath_def pp list_all_iff)
qed

lemma urlPreprocess_canonical:
  assumes "safeVanity w"
  shows "urlPreprocess (canonicalProfile w) = canonicalProfile w"
proof -
  let ?c = "canonicalProfile w"
  have "dropWhile isC0OrSpace ?c = ?c"
    by (simp add: canonicalProfile_def jsstr_def isC0OrSpace_def)
  moreover have "dropWhile isC0OrSpace (rev ?c) = rev ?c"
    by (simp add: canonicalProfile_def jsstr_def isC0OrSpace_def)
  moreover have "filter (\<lambda>c. \<not> isTabOrNewline c) ?c = ?c"
    using assms safeVanity_chars vanityChar_facts(10)
    by (auto simp: canonicalProfile_def jsstr_def isTabOrNewline_def filter_id_conv)
  ultimately show ?thesis by (simp add: urlPreprocess_def)
qed

lemma whatwgURL_canonical:
  assumes "safeVanity w"
  shows "whatwgURL ext (canonicalProfile w) (Some linkedinBase) =
           Some \<lparr> hrefOrigin = jsstr ''https://www.linkedin.com'',
                  hostname = jsstr ''www.linkedin.com'',
                  pathname = jsstr ''/in/'' @ w @ jsstr ''/'' \<rparr>"
proof -
  let ?rest = "jsstr ''//www.linkedin.com/in/'' @ w @ jsstr ''/''"
  let ?a = "jsstr ''www.linkedin.com/in/'' @ w @ jsstr ''/''"
  have sch: "splitScheme (canonicalProfile w) = Some (jsstr ''https'', ?rest)"
    by (simp add: canonicalProfile_def splitScheme_def jsstr_def isAsciiLetter_def isUpperAZ_def
        isLowerAZ_def isSchemeChar_def isDigit_def foldAscii_def)
  have sl: "startsWith ?rest (jsstr ''//'')" "dropWhile isSlash ?rest = ?a"
    by (simp_all add: startsWith_def jsstr_def isSlash_def)
  have auth: "takeWhile (\<lambda>c. \<not> isAuthorityEnd c) ?a = jsstr ''www.linkedin.com''"
    by (simp add: jsstr_def isAuthorityEnd_def isSlash_def isPathEnd_def)
  have after: "afterAuthority ?a = jsstr ''in/'' @ w @ jsstr ''/''"
    by (simp add: afterAuthority_def jsstr_def isAuthorityEnd_def isSlash_def isPathEnd_def)
  have host: "plainHost (jsstr ''www.linkedin.com'')"
    "map foldAscii (jsstr ''www.linkedin.com'') = jsstr ''www.linkedin.com''"
    by (simp_all add: all_defs)
  have "authorityState ext (canonicalProfile w) (Some linkedinBase) (jsstr ''https'') ?a =
          Some \<lparr> hrefOrigin = jsstr ''https://www.linkedin.com'',
                 hostname = jsstr ''www.linkedin.com'',
                 pathname = jsstr ''/in/'' @ w @ jsstr ''/'' \<rparr>"
    using pathState_vanity [OF assms]
    by (simp add: authorityState_def Let_def auth after host specialUrl_def) (simp add: jsstr_def)
  then show ?thesis
    by (simp add: whatwgURL_def urlPreprocess_canonical [OF assms] sch sl)
qed

lemma matchInSegment_vanity:
  assumes "safeVanity w"
  shows "matchInSegment (jsstr ''/in/'' @ w @ jsstr ''/'') = Some w"
proof -
  have "drop 4 (jsstr ''/in/'' @ w @ jsstr ''/'') = w @ [47]"
    by (simp add: jsstr_def)
  moreover have "takeWhile (\<lambda>c. \<not> isSegmentEnd c) (w @ [47]) = w"
    using assms safeVanity_chars vanityChar_facts(5)
    by (simp add: takeWhile_through isSegmentEnd_def)
  moreover have "startsWithCI (jsstr ''/in/'' @ w @ jsstr ''/'') (jsstr ''/in/'')"
    by (simp add: startsWithCI_def eqCI_def jsstr_def)
  moreover have "w \<noteq> []" using assms by (simp add: safeVanity_def)
  ultimately show ?thesis by (simp add: matchInSegment_def)
qed

lemma toCanonicalProfileUrl_canonical:
  assumes "safeVanity w"
  shows "toCanonicalProfileUrl (whatwgURL ext) (canonicalProfile w) = canonicalProfile w"
  by (simp add: toCanonicalProfileUrl_def whatwgURL_canonical [OF assms]
      matchInSegment_vanity [OF assms])
     (simp add: canonicalProfile_def)

lemma profileTail_canonical:
  assumes "safeVanity w"
  shows "regexSearch profileTailAt (canonicalProfile w) \<noteq> None"
proof (rule regexSearch_matches [of _ _ 12])
  have d: "drop 12 (canonicalProfile w) = jsstr ''linkedin.com/in/'' @ w @ [47]"
    by (simp add: canonicalProfile_def jsstr_def)
  have "drop 16 (jsstr ''linkedin.com/in/'' @ w @ [47]) = w @ [47]"
    by (simp add: jsstr_def)
  moreover have "takeWhile (\<lambda>c. c \<noteq> 47) (w @ [47]) = w" "dropWhile (\<lambda>c. c \<noteq> 47) (w @ [47]) = [47]"
    using assms safeVanity_chars vanityChar_facts(2)
    by (simp_all add: takeWhile_through dropWhile_through)
  moreover have "startsWithCI (jsstr ''linkedin.com/in/'' @ w @ [47]) (jsstr ''linkedin.com/in/'')"
    by (simp add: startsWithCI_def eqCI_def jsstr_def)
  moreover have "w \<noteq> []" using assms by (simp add: safeVanity_def)
  ultimately have "profileTailAt (prevAt (canonicalProfile w) 12) (drop 12 (canonicalProfile w)) = Some ()"
    by (simp add: profileTailAt_def d)
  moreover have "12 \<le> length (canonicalProfile w)"
    by (simp add: canonicalProfile_def jsstr_def)
  ultimately show "matchesAt profileTailAt (canonicalProfile w) 12"
    by (simp add: matchesAt_def)
qed

lemma buildProfileUrl_canonical:
  assumes "safeVanity w"
  shows "buildProfileUrl (whatwgURL ext) (canonicalProfile w) = Inr (canonicalProfile w)"
proof -
  let ?c = "canonicalProfile w"
  have ns: "\<And>c. c \<in> set ?c \<Longrightarrow> notSpaceJS c"
    using assms safeVanity_chars vanityChar_facts(1)
    by (auto simp: canonicalProfile_def jsstr_def notSpaceJS_def isSpaceJS_def)
  have t: "trim ?c = ?c" by (rule trim_id) (rule ns)
  have h: "isHttpUrl ?c" by (simp add: isHttpUrl_def startsWith_def canonicalProfile_def jsstr_def)
  have ne: "?c \<noteq> []" by (simp add: canonicalProfile_def jsstr_def)
  show ?thesis
    using profileTail_canonical [OF assms]
    by (simp add: buildProfileUrl_def Let_def t h ne toCanonicalProfileUrl_canonical [OF assms])
qed

text \<open>
  Claim C3, amended. For a vanity name whose trimmed form is safe (printable ASCII
  without the delimiters and the characters that the parser encodes, and no dot
  segment), the canonical form is \<open>https://www.linkedin.com/in/\<close>, the trimmed name and a
  slash; building the profile link from the canonical form gives the canonical form
  again; and the canonical form has neither a question mark nor a number sign. This
  holds whatever the runtime does outside the modelled part of the URL parser.
\<close>

theorem C3_profile_idempotent:
  assumes "safeVanity (trim v)"
  shows "buildProfileUrl (whatwgURL ext) v = Inr (canonicalProfile (trim v))
         \<and> buildProfileUrl (whatwgURL ext) (canonicalProfile (trim v)) = Inr (canonicalProfile (trim v))
         \<and> 63 \<notin> set (canonicalProfile (trim v)) \<and> 35 \<notin> set (canonicalProfile (trim v))"
proof -
  have "63 \<notin> set (trim v)" "35 \<notin> set (trim v)"
    using assms safeVanity_chars vanityChar_facts(11,12) by blast+
  then have "63 \<notin> set (canonicalProfile (trim v)) \<and> 35 \<notin> set (canonicalProfile (trim v))"
    by (simp add: canonicalProfile_def jsstr_def)
  then show ?thesis
    using buildProfileUrl_bare [OF assms] buildProfileUrl_canonical [OF assms] by simp
qed

theorem C3_profile_idempotent_witness:
  "safeVanity (trim exPaddedVanity)
   \<and> buildProfileUrl (whatwgURL noExt) exPaddedVanity = Inr (jsstr ''https://www.linkedin.com/in/jane-doe/'')
   \<and> buildProfileUrl (whatwgURL noExt) (jsstr ''https://www.linkedin.com/in/jane-doe/'')
       = Inr (jsstr ''https://www.linkedin.com/in/jane-doe/'')"
proof -
  have t: "trim exPaddedVanity = jsstr ''jane-doe''"
    by (simp add: exPaddedVanity_def string_defs)
  have s: "safeVanity (jsstr ''jane-doe'')"
    by (simp add: safeVanity_def vanityChar_def isSingleDot_def isDoubleDot_def eqCI_def jsstr_def)
  have c: "canonicalProfile (jsstr ''jane-doe'') = jsstr ''https://www.linkedin.com/in/jane-doe/''"
    by (simp add: canonicalProfile_def jsstr_def)
  show ?thesis
    using C3_profile_idempotent [of exPaddedVanity noExt] s
    by (simp add: t c)
qed

text \<open>
  The claim as stated fails. \<open>jane?x\<close> and \<open>jane doe\<close> are not empty and have no slash.
  The link built from \<open>jane?x\<close> has a query, and canonicalising it again cuts the query
  off; the link built from \<open>jane doe\<close> has a space, which canonicalising it again
  percent-encodes.
\<close>

theorem C3_query_and_space_counterexample:
  "validVanity exQueryVanity
   \<and> buildProfileUrl (whatwgURL noExt) exQueryVanity = Inr (jsstr ''https://www.linkedin.com/in/jane?x/'')
   \<and> buildProfileUrl (whatwgURL noExt) (jsstr ''https://www.linkedin.com/in/jane?x/'')
       = Inr (jsstr ''https://www.linkedin.com/in/jane/'')
   \<and> validVanity exSpaceVanity
   \<and> buildProfileUrl (whatwgURL noExt) exSpaceVanity = Inr (jsstr ''https://www.linkedin.com/in/jane doe/'')
   \<and> buildProfileUrl (whatwgURL noExt) (jsstr ''https://www.linkedin.com/in/jane doe/'')
       = Inr (jsstr ''https://www.linkedin.com/in/jane%20doe/'')"
  by (simp add: exQueryVanity_def exSpaceVanity_def validVanity_def all_defs)

section \<open>Collections\<close>

lemmas collect_defs =
  mapHas_def mapValues_def sliceTo_def orElse_def cardToResult_def rawPeopleCardsToResults_def
  scrapeRawPeopleCards_def addIfAbsent_def fetchPage_def collectPeopleResultsByPageNumber_def
  linkToMutual_def setMutual_def dedupeMutuals_def scrapeVisibleMutualConnections_def
  includesStr_def resolveMyProfileUrl_def getProfile_def getMutualConnections_def
  getWarmIntroPaths_def nextStable_def addPost_def normalizeProfileBase_def listPosts_def
  addConnection_def listConnections_def stubEnv_def exCardJane_def exPersonJane_def
  exCardNameless_def exLinkFirst_def exLinkSecond_def exPost_def exConnection_def
  isGoto_def pagesVisited_def roundsOf_def connectionResult_def exPersonFirst_def
  exSearchUrl_def

lemma stubEnv_fields:
  "envNewURL (stubEnv cards links posts conns) = whatwgURL noExt"
  "actionOk (stubEnv cards links posts conns) pg = True"
  "evalCards (stubEnv cards links posts conns) pg = cards"
  "evalLinks (stubEnv cards links posts conns) pg = links"
  "evalPosts (stubEnv cards links posts conns) pg = posts"
  "evalConnections (stubEnv cards links posts conns) pg = conns"
  "pageNumberUrl (stubEnv cards links posts conns) startUrl n = startUrl"
  by (simp_all add: stubEnv_def)

subsection \<open>Maps\<close>

lemma mapSet_absent: "k \<notin> fst ` set m \<Longrightarrow> mapSet m k v = m @ [(k, v)]"
  by (induction m) auto

lemma map_of_mapSet: "map_of (mapSet m k v) = (map_of m)(k \<mapsto> v)"
  by (induction m) (auto simp: fun_eq_iff)

lemma mapHas_map_of: "mapHas m k \<longleftrightarrow> map_of m k \<noteq> None"
  by (simp add: mapHas_def map_of_eq_None_iff)

lemma keys_mapSet: "map fst (mapSet m k v) = setAdd (map fst m) k"
  by (induction m) (force simp: setAdd_def)+

lemma mapSet_keyed:
  "\<forall>(k, v) \<in> set m. k = f v \<Longrightarrow> k' = f p \<Longrightarrow> \<forall>(k, v) \<in> set (mapSet m k' p). k = f v"
  by (induction m) (auto split: if_splits)

subsection \<open>One round of the page-number collection\<close>

lemma addIfAbsent_prefix: "prefix seen (addIfAbsent seen p)"
  by (simp add: addIfAbsent_def mapHas_def mapSet_absent)

lemma foldl_addIfAbsent_prefix: "prefix seen (foldl addIfAbsent seen parsed)"
proof (induction parsed arbitrary: seen)
  case Nil
  show ?case by simp
next
  case (Cons p ps)
  have "prefix seen (addIfAbsent seen p)" by (rule addIfAbsent_prefix)
  also have "prefix (addIfAbsent seen p) (foldl addIfAbsent (addIfAbsent seen p) ps)"
    by (rule Cons.IH)
  finally show ?case by simp
qed

lemma foldl_addIfAbsent_first:
  "map_of (foldl addIfAbsent seen parsed) k =
     (case map_of seen k of
        Some v \<Rightarrow> Some v
      | None \<Rightarrow> find (\<lambda>p. profileUrl p = k) parsed)"
proof (induction parsed arbitrary: seen)
  case Nil
  show ?case by (simp split: option.splits)
next
  case (Cons p ps)
  have a: "map_of (addIfAbsent seen p) k =
             (case map_of seen k of
                Some v \<Rightarrow> Some v
              | None \<Rightarrow> if profileUrl p = k then Some p else None)"
    by (auto simp: addIfAbsent_def mapHas_map_of map_of_mapSet split: option.splits)
  have "map_of (foldl addIfAbsent seen (p # ps)) k =
          map_of (foldl addIfAbsent (addIfAbsent seen p) ps) k"
    by simp
  also have "\<dots> = (case map_of (addIfAbsent seen p) k of
                      Some v \<Rightarrow> Some v
                    | None \<Rightarrow> find (\<lambda>p. profileUrl p = k) ps)"
    by (rule Cons.IH)
  also have "\<dots> = (case map_of seen k of
                      Some v \<Rightarrow> Some v
                    | None \<Rightarrow> find (\<lambda>p. profileUrl p = k) (p # ps))"
    unfolding a by (simp split: option.splits)
  finally show ?case .
qed

lemma foldl_addIfAbsent_keyed:
  "\<forall>(k, v) \<in> set seen. k = profileUrl v \<Longrightarrow>
   \<forall>(k, v) \<in> set (foldl addIfAbsent seen parsed). k = profileUrl v"
proof (induction parsed arbitrary: seen)
  case Nil
  then show ?case by simp
next
  case (Cons p ps)
  have "\<forall>(k, v) \<in> set (addIfAbsent seen p). k = profileUrl v"
    using Cons.prems by (auto simp: addIfAbsent_def mapHas_def mapSet_absent)
  then show ?case using Cons.IH by simp
qed

lemma toCanonicalProfileUrl_empty: "toCanonicalProfileUrl newURL [] = []"
  by (simp add: toCanonicalProfileUrl_def)

lemma rawPeopleCardsToResults_filter:
  "rawPeopleCardsToResults newURL raw =
     filter (\<lambda>p. name p \<noteq> [] \<and> profileUrl p \<noteq> []) (map (cardToResult newURL) raw)"
  unfolding rawPeopleCardsToResults_def
  by (induction raw) (auto simp: cardToResult_def toCanonicalProfileUrl_empty Let_def)

subsection \<open>All rounds of the page-number collection\<close>

lemma collectLoop_prefix:
  "collectLoop e startUrl limit maxPages pageNumber emptyPageStreak seen pg = (Inr seen', pg')
   \<Longrightarrow> prefix seen seen'"
proof (induction e startUrl limit maxPages pageNumber emptyPageStreak seen pg
       rule: collectLoop.induct)
  case (1 e startUrl limit maxPages pageNumber emptyPageStreak seen pg)
  show ?case
  proof (cases "pageNumber \<le> maxPages")
    case False
    then show ?thesis using "1.prems" by (simp add: collectLoop.simps)
  next
    case le: True
    obtain r pg1 where f: "fetchPage e startUrl pageNumber pg = (r, pg1)"
      by (cases "fetchPage e startUrl pageNumber pg")
    show ?thesis
    proof (cases r)
      case None
      then show ?thesis using "1.prems" le f
        by (simp add: collectLoop.simps [of e startUrl limit maxPages pageNumber])
    next
      case (Some parsed)
      note unf = collectLoop.simps [of e startUrl limit maxPages pageNumber emptyPageStreak seen pg]
      show ?thesis
      proof (cases "parsed = []")
        case True
        show ?thesis
        proof (cases "2 \<le> emptyPageStreak + 1")
          case True
          then show ?thesis using "1.prems" le f Some \<open>parsed = []\<close> by (simp add: unf)
        next
          case False
          then have "collectLoop e startUrl limit maxPages (pageNumber + 1) (emptyPageStreak + 1)
                       seen pg1 = (Inr seen', pg')"
            using "1.prems" le f Some \<open>parsed = []\<close> by (simp add: unf)
          then show ?thesis
            using "1.IH"(1) [OF _ f [symmetric] Some \<open>parsed = []\<close> False] le by simp
        qed
      next
        case ne: False
        let ?s = "foldl addIfAbsent seen parsed"
        have p: "prefix seen ?s" by (rule foldl_addIfAbsent_prefix)
        show ?thesis
        proof (cases "limit \<le> int (length ?s)")
          case True
          then have "seen' = ?s" using "1.prems" le f Some ne by (simp add: unf)
          then show ?thesis using p by simp
        next
          case False
          then have "collectLoop e startUrl limit maxPages (pageNumber + 1) 0 ?s pg1
                       = (Inr seen', pg')"
            using "1.prems" le f Some ne by (simp add: unf)
          then have "prefix ?s seen'"
            using "1.IH"(2) [OF _ f [symmetric] Some ne False] le by simp
          with p show ?thesis by (rule prefix_order.trans)
        qed
      qed
    qed
  qed
qed

subsection \<open>Visible mutual connections\<close>

lemma keys_foldl_setMutual:
  "map fst (foldl setMutual m ps) = foldl setAdd (map fst m) (map profileUrl ps)"
  by (induction ps arbitrary: m) (simp_all add: setMutual_def keys_mapSet)

lemma foldl_setMutual_keyed:
  "\<forall>(k, v) \<in> set m. k = profileUrl v \<Longrightarrow>
   \<forall>(k, v) \<in> set (foldl setMutual m ps). k = profileUrl v"
proof (induction ps arbitrary: m)
  case Nil
  then show ?case by simp
next
  case (Cons p ps)
  have "\<forall>(k, v) \<in> set (mapSet m (profileUrl p) p). k = profileUrl v"
    using Cons.prems by (rule mapSet_keyed) simp
  then show ?case using Cons.IH by (simp add: setMutual_def)
qed

lemma dedupeMutuals_keys:
  "map profileUrl (dedupeMutuals newURL raw) =
     newSet (map profileUrl
               (filter (\<lambda>p. name p \<noteq> [] \<and> profileUrl p \<noteq> []) (map (linkToMutual newURL) raw)))"
proof -
  let ?mapped = "filter (\<lambda>p. name p \<noteq> [] \<and> profileUrl p \<noteq> []) (map (linkToMutual newURL) raw)"
  have k: "\<forall>(k, v) \<in> set (foldl setMutual [] ?mapped). k = profileUrl v"
    by (rule foldl_setMutual_keyed) simp
  have "map profileUrl (map snd (foldl setMutual [] ?mapped)) = map fst (foldl setMutual [] ?mapped)"
    using k by (auto simp: case_prod_beta)
  then show ?thesis
    by (simp add: dedupeMutuals_def mapValues_def keys_foldl_setMutual newSet_def)
qed

subsection \<open>Discarding and deduplication\<close>

text \<open>
  Claim C7, as the code has it. A raw card becomes a person record, and the record is
  dropped exactly when it lacks a name or lacks a canonical profile link: one of the two
  missing is enough. The survivors go into a map keyed by the canonical profile link.
  In the collection by page number the first record of a key wins: looking a key up
  after a round gives the record that was there before the round and, failing that, the
  first record of the round with that link; and the map at the end of the loop starts
  with the map at its start, so that no entry is ever replaced or moved. The scraping of
  the visible mutual connections drops records by the same test and returns one record
  for every canonical link, in the order in which the links first occur.
\<close>

theorem C7_discard_and_first_wins:
  "rawPeopleCardsToResults (envNewURL e) raw
     = filter (\<lambda>p. name p \<noteq> [] \<and> profileUrl p \<noteq> []) (map (cardToResult (envNewURL e)) raw)
   \<and> map_of (foldl addIfAbsent seen parsed) k
       = (case map_of seen k of
            Some v \<Rightarrow> Some v
          | None \<Rightarrow> find (\<lambda>p. profileUrl p = k) parsed)
   \<and> (collectLoop e startUrl limit maxPages pageNumber emptyPageStreak seen pg = (Inr seen', pg')
        \<longrightarrow> prefix seen seen')
   \<and> map profileUrl (dedupeMutuals (envNewURL e) links)
       = newSet (map profileUrl
                   (filter (\<lambda>p. name p \<noteq> [] \<and> profileUrl p \<noteq> [])
                      (map (linkToMutual (envNewURL e)) links)))"
  using rawPeopleCardsToResults_filter [of "envNewURL e" raw]
        foldl_addIfAbsent_first [of seen parsed k]
        collectLoop_prefix [of e startUrl limit maxPages pageNumber emptyPageStreak seen pg seen' pg']
        dedupeMutuals_keys [of "envNewURL e" links]
  by blast

theorem C7_discard_and_first_wins_witness:
  "rawPeopleCardsToResults (whatwgURL noExt) [exCardJane, exCardNameless] = [exPersonJane]
   \<and> map_of (foldl addIfAbsent [(profileUrl exPersonJane, exPersonFirst)] [exPersonJane])
        (profileUrl exPersonJane) = Some exPersonFirst
   \<and> collectLoop (stubEnv [exCardJane] [exLinkFirst, exLinkSecond] [] []) exSearchUrl 1 30 1 0
        [(profileUrl exPersonJane, exPersonFirst)] []
       = (Inr [(profileUrl exPersonJane, exPersonFirst)],
          [Goto exSearchUrl, WaitForSelector, Evaluate ModernCards])
   \<and> map profileUrl (dedupeMutuals (whatwgURL noExt) [exLinkFirst, exLinkSecond])
       = [profileUrl exPersonJane]"
proof -
  have c: "cardToResult (whatwgURL noExt) exCardJane = exPersonJane"
    by (simp add: collect_defs all_defs)
  have n: "name (cardToResult (whatwgURL noExt) exCardNameless) = []"
    by (simp add: collect_defs all_defs)
  have l: "map (linkToMutual (whatwgURL noExt)) [exLinkFirst, exLinkSecond]
             = [exPersonJane \<lparr> headline := [], location := [], connectionDegree := jsstr ''unknown'' \<rparr>,
                exPersonJane \<lparr> name := jsstr ''Jane D.'', headline := [], location := [],
                               connectionDegree := jsstr ''unknown'' \<rparr>]"
    by (simp add: collect_defs all_defs)
  have r: "rawPeopleCardsToResults (whatwgURL noExt) [exCardJane] = [exPersonJane]"
    using c by (simp add: rawPeopleCardsToResults_def exCardJane_def exPersonJane_def jsstr_def)
  have f: "fetchPage (stubEnv [exCardJane] [exLinkFirst, exLinkSecond] [] []) exSearchUrl 1 []
             = (Some [exPersonJane], [Goto exSearchUrl, WaitForSelector, Evaluate ModernCards])"
    using r by (simp add: fetchPage_def scrapeRawPeopleCards_def stubEnv_fields Let_def)
  have a: "foldl addIfAbsent [(profileUrl exPersonJane, exPersonFirst)] [exPersonJane]
             = [(profileUrl exPersonJane, exPersonFirst)]"
    by (simp add: addIfAbsent_def mapHas_def)
  have loop: "collectLoop (stubEnv [exCardJane] [exLinkFirst, exLinkSecond] [] []) exSearchUrl 1 30 1 0
                [(profileUrl exPersonJane, exPersonFirst)] []
              = (Inr [(profileUrl exPersonJane, exPersonFirst)],
                 [Goto exSearchUrl, WaitForSelector, Evaluate ModernCards])"
    using f a by (subst collectLoop.simps) simp
  note T = C7_discard_and_first_wins
             [of "stubEnv [exCardJane] [exLinkFirst, exLinkSecond] [] []"
                 "[exCardJane, exCardNameless]" "[(profileUrl exPersonJane, exPersonFirst)]"
                 "[exPersonJane]" "profileUrl exPersonJane" exSearchUrl 1 30 1 0 "[]"
                 "[(profileUrl exPersonJane, exPersonFirst)]"
                 "[Goto exSearchUrl, WaitForSelector, Evaluate ModernCards]"
                 "[exLinkFirst, exLinkSecond]"]
  have g1: "rawPeopleCardsToResults (whatwgURL noExt) [exCardJane, exCardNameless] = [exPersonJane]"
  proof -
    have "name exPersonJane \<noteq> [] \<and> profileUrl exPersonJane \<noteq> []"
      by (simp add: exPersonJane_def jsstr_def)
    then have "filter (\<lambda>p. name p \<noteq> [] \<and> profileUrl p \<noteq> [])
                 (map (cardToResult (whatwgURL noExt)) [exCardJane, exCardNameless]) = [exPersonJane]"
      using n by (simp add: c)
    with T show ?thesis by (simp add: stubEnv_fields)
  qed
  have g2: "map_of (foldl addIfAbsent [(profileUrl exPersonJane, exPersonFirst)] [exPersonJane])
              (profileUrl exPersonJane) = Some exPersonFirst"
    using T by simp
  have g4: "map profileUrl (dedupeMutuals (whatwgURL noExt) [exLinkFirst, exLinkSecond])
              = [profileUrl exPersonJane]"
  proof -
    have "map profileUrl
            (filter (\<lambda>p. name p \<noteq> [] \<and> profileUrl p \<noteq> [])
               (map (linkToMutual (whatwgURL noExt)) [exLinkFirst, exLinkSecond]))
          = [profileUrl exPersonJane, profileUrl exPersonJane]"
      unfolding l by (simp add: exPersonJane_def jsstr_def)
    moreover have "newSet [profileUrl exPersonJane, profileUrl exPersonJane] = [profileUrl exPersonJane]"
      by (simp add: newSet_def setAdd_def)
    ultimately show ?thesis using T by (simp add: stubEnv_fields)
  qed
  show ?thesis using g1 g2 loop g4 by blast
qed

text \<open>
  Against the claim as it was stated: a card with a good profile link and no name does
  not lack both, and is dropped; and of two visible links to one profile the record of
  the second replaces the record of the first.
\<close>

theorem C7_nameless_and_overwrite_counterexample:
  "profileUrl (cardToResult (whatwgURL noExt) exCardNameless)
     = jsstr ''https://www.linkedin.com/in/jane-doe/''
   \<and> rawPeopleCardsToResults (whatwgURL noExt) [exCardNameless] = []
   \<and> map name (map (linkToMutual (whatwgURL noExt)) [exLinkFirst, exLinkSecond])
       = [jsstr ''Jane Doe'', jsstr ''Jane D.'']
   \<and> map profileUrl (map (linkToMutual (whatwgURL noExt)) [exLinkFirst, exLinkSecond])
       = [jsstr ''https://www.linkedin.com/in/jane-doe/'', jsstr ''https://www.linkedin.com/in/jane-doe/'']
   \<and> map name (dedupeMutuals (whatwgURL noExt) [exLinkFirst, exLinkSecond]) = [jsstr ''Jane D.'']"
  by (simp add: collect_defs all_defs)

subsection \<open>Limits of zero or less\<close>

text \<open>
  Claim C10. With a limit of zero or less, each of the four operations returns the
  empty list and the page as it was: nothing was navigated to or evaluated, and the
  profile link was not looked at, so no link, however malformed, makes them fail.
\<close>

theorem C10_nonpositive_limit:
  "limit \<le> 0 \<Longrightarrow>
     getMutualConnections e pg u limit = (Inr [], pg)
     \<and> getWarmIntroPaths e pg u limit = (Inr [], pg)
     \<and> listPosts e pg u limit withEngagement = (Inr [], pg)
     \<and> listConnections e pg limit = (Inr [], pg)"
  by (simp add: getMutualConnections_def getWarmIntroPaths_def listPosts_def listConnections_def)

text \<open>
  At the limit 0 the link \<open>https://\<close>, which is no link at all, is accepted by all four;
  at the limit 1 it is refused.
\<close>

theorem C10_nonpositive_limit_witness:
  "getMutualConnections (stubEnv [] [] [] []) [] (jsstr ''https://'') 0 = (Inr [], [])
   \<and> getWarmIntroPaths (stubEnv [] [] [] []) [] (jsstr ''https://'') 0 = (Inr [], [])
   \<and> listPosts (stubEnv [] [] [] []) [] (jsstr ''https://'') 0 False = (Inr [], [])
   \<and> listConnections (stubEnv [] [] [] []) [] 0 = (Inr [], [])
   \<and> getMutualConnections (stubEnv [] [] [] []) [] (jsstr ''https://'') 1
       = (Inl InvalidTargetProfileUrl, [])"
proof -
  have "getMutualConnections (stubEnv [] [] [] []) [] (jsstr ''https://'') 1
       = (Inl InvalidTargetProfileUrl, [])"
    by (simp add: collect_defs all_defs)
  then show ?thesis
    using C10_nonpositive_limit [of 0 "stubEnv [] [] [] []" "[]" "jsstr ''https://''" False]
    by simp
qed

subsection \<open>A batch that is the same in every round\<close>

lemma foldl_add_fresh:
  assumes "\<And>seen p. p \<in> set xs \<Longrightarrow>
             add seen p = (if key p \<in> fst ` set seen then seen else seen @ [(key p, val p)])"
      and "distinct (map key xs)"
      and "key ` set xs \<inter> fst ` set seen = {}"
  shows "foldl add seen xs = seen @ map (\<lambda>p. (key p, val p)) xs"
  using assms
proof (induction xs arbitrary: seen)
  case Nil
  show ?case by simp
next
  case (Cons x xs)
  have a: "add seen x = seen @ [(key x, val x)]"
    using Cons.prems(1) [of x seen] Cons.prems(3) by auto
  have "foldl add (seen @ [(key x, val x)]) xs
          = (seen @ [(key x, val x)]) @ map (\<lambda>p. (key p, val p)) xs"
  proof (rule Cons.IH)
    show "add s p = (if key p \<in> fst ` set s then s else s @ [(key p, val p)])"
      if "p \<in> set xs" for s p
      using Cons.prems(1) [of p s] that by simp
    show "distinct (map key xs)" using Cons.prems(2) by simp
    show "key ` set xs \<inter> fst ` set (seen @ [(key x, val x)]) = {}"
      using Cons.prems(2,3) by auto
  qed
  then show ?case by (simp add: a)
qed

lemma foldl_add_same:
  assumes "\<And>seen p. p \<in> set xs \<Longrightarrow>
             add seen p = (if key p \<in> fst ` set seen then seen else seen @ [(key p, val p)])"
      and "key ` set xs \<subseteq> fst ` set seen"
  shows "foldl add seen xs = seen"
  using assms
proof (induction xs arbitrary: seen)
  case Nil
  show ?case by simp
next
  case (Cons x xs)
  have a: "add seen x = seen"
    using Cons.prems(1) [of x seen] Cons.prems(2) by auto
  have "foldl add seen xs = seen"
  proof (rule Cons.IH)
    show "add s p = (if key p \<in> fst ` set s then s else s @ [(key p, val p)])"
      if "p \<in> set xs" for s p
      using Cons.prems(1) [of p s] that by simp
    show "key ` set xs \<subseteq> fst ` set seen" using Cons.prems(2) by simp
  qed
  then show ?case by (simp add: a)
qed

lemma foldl_add_batch:
  assumes "\<And>seen p. p \<in> set xs \<Longrightarrow>
             add seen p = (if key p \<in> fst ` set seen then seen else seen @ [(key p, val p)])"
      and "distinct (map key xs)"
  shows "foldl add [] xs = map (\<lambda>p. (key p, val p)) xs"
    and "foldl add (map (\<lambda>p. (key p, val p)) xs) xs = map (\<lambda>p. (key p, val p)) xs"
proof -
  show "foldl add [] xs = map (\<lambda>p. (key p, val p)) xs"
    using foldl_add_fresh [of xs add key val "[]"] assms by simp
  show "foldl add (map (\<lambda>p. (key p, val p)) xs) xs = map (\<lambda>p. (key p, val p)) xs"
    using assms(1) by (rule foldl_add_same) (auto simp: image_image)
qed

lemma sliceTo_take: "0 < limit \<Longrightarrow> sliceTo xs limit = take (nat limit) xs"
  by (simp add: sliceTo_def)

lemma pagesVisited_append: "pagesVisited (pg @ qs) = pagesVisited pg + pagesVisited qs"
  by (simp add: pagesVisited_def)

lemma roundsOf_append: "roundsOf s (pg @ qs) = roundsOf s pg + roundsOf s qs"
  by (simp add: roundsOf_def)

subsection \<open>The rounds of the page-number collection\<close>

lemma addIfAbsent_step:
  "addIfAbsent seen p
     = (if profileUrl p \<in> fst ` set seen then seen else seen @ [(profileUrl p, p)])"
  by (simp add: addIfAbsent_def mapHas_def mapSet_absent)

lemma fetchPage_stub:
  assumes "\<forall>pg. actionOk e pg"
      and "\<forall>pg. rawPeopleCardsToResults (envNewURL e) (evalCards e pg) = people"
  shows "fst (fetchPage e startUrl pageNumber pg) = Some people"
    and "pagesVisited (snd (fetchPage e startUrl pageNumber pg)) = pagesVisited pg + 1"
  using assms
  by (auto simp: fetchPage_def scrapeRawPeopleCards_def Let_def pagesVisited_def isGoto_def)

lemma collectLoop_stub_limit:
  assumes "\<forall>pg. actionOk e pg"
      and "\<forall>pg. rawPeopleCardsToResults (envNewURL e) (evalCards e pg) = people"
      and "people \<noteq> []"
      and "limit \<le> int (length (foldl addIfAbsent seen people))"
      and "pageNumber \<le> maxPages"
  shows "fst (collectLoop e startUrl limit maxPages pageNumber streak seen pg)
           = Inr (foldl addIfAbsent seen people)"
    and "pagesVisited (snd (collectLoop e startUrl limit maxPages pageNumber streak seen pg))
           = pagesVisited pg + 1"
proof -
  obtain r pg1 where f: "fetchPage e startUrl pageNumber pg = (r, pg1)"
    by (cases "fetchPage e startUrl pageNumber pg")
  have r: "r = Some people" and v: "pagesVisited pg1 = pagesVisited pg + 1"
    using fetchPage_stub [OF assms(1,2), of startUrl pageNumber pg] f by simp_all
  have "collectLoop e startUrl limit maxPages pageNumber streak seen pg
          = (Inr (foldl addIfAbsent seen people), pg1)"
    using assms(3,4,5) f r by (subst collectLoop.simps) simp
  then show "fst (collectLoop e startUrl limit maxPages pageNumber streak seen pg)
               = Inr (foldl addIfAbsent seen people)"
    and "pagesVisited (snd (collectLoop e startUrl limit maxPages pageNumber streak seen pg))
           = pagesVisited pg + 1"
    using v by simp_all
qed

lemma collectLoop_stub_all_pages:
  assumes "\<forall>pg. actionOk e pg"
      and "\<forall>pg. rawPeopleCardsToResults (envNewURL e) (evalCards e pg) = people"
      and "people \<noteq> []"
      and "foldl addIfAbsent S people = S"
      and "\<not> limit \<le> int (length S)"
  shows "foldl addIfAbsent seen people = S \<Longrightarrow> pageNumber \<le> maxPages \<Longrightarrow>
         fst (collectLoop e startUrl limit maxPages pageNumber streak seen pg) = Inr S
         \<and> pagesVisited (snd (collectLoop e startUrl limit maxPages pageNumber streak seen pg))
             = pagesVisited pg + (maxPages + 1 - pageNumber)"
proof (induction "maxPages - pageNumber" arbitrary: pageNumber streak seen pg)
  case 0
  obtain r pg1 where f: "fetchPage e startUrl pageNumber pg = (r, pg1)"
    by (cases "fetchPage e startUrl pageNumber pg")
  have r: "r = Some people" and v: "pagesVisited pg1 = pagesVisited pg + 1"
    using fetchPage_stub [OF assms(1,2), of startUrl pageNumber pg] f by simp_all
  have last: "pageNumber = maxPages" using 0 by simp
  have "collectLoop e startUrl limit maxPages (pageNumber + 1) 0 S pg1 = (Inr S, pg1)"
    using last by (subst collectLoop.simps) simp
  then have "collectLoop e startUrl limit maxPages pageNumber streak seen pg = (Inr S, pg1)"
    using assms(3,5) "0.prems" f r by (subst collectLoop.simps) simp
  then show ?case using v last by simp
next
  case (Suc k)
  obtain r pg1 where f: "fetchPage e startUrl pageNumber pg = (r, pg1)"
    by (cases "fetchPage e startUrl pageNumber pg")
  have r: "r = Some people" and v: "pagesVisited pg1 = pagesVisited pg + 1"
    using fetchPage_stub [OF assms(1,2), of startUrl pageNumber pg] f by simp_all
  have k: "k = maxPages - (pageNumber + 1)" and le: "pageNumber + 1 \<le> maxPages"
    using Suc.hyps(2) by simp_all
  have step: "collectLoop e startUrl limit maxPages pageNumber streak seen pg
                = collectLoop e startUrl limit maxPages (pageNumber + 1) 0 S pg1"
    using assms(3,5) Suc.prems f r
    by (subst collectLoop.simps [of e startUrl limit maxPages pageNumber]) simp
  have "fst (collectLoop e startUrl limit maxPages (pageNumber + 1) 0 S pg1) = Inr S
        \<and> pagesVisited (snd (collectLoop e startUrl limit maxPages (pageNumber + 1) 0 S pg1))
            = pagesVisited pg1 + (maxPages + 1 - (pageNumber + 1))"
    using Suc.hyps(1) [OF k assms(4) le] .
  then show ?case using step v le by simp
qed

lemma collectLoop_stub_empty:
  assumes "\<forall>pg. actionOk e pg"
      and "\<forall>pg. rawPeopleCardsToResults (envNewURL e) (evalCards e pg) = []"
      and "pageNumber \<le> maxPages"
  shows "fst (collectLoop e startUrl limit maxPages pageNumber 0 seen pg) = Inr seen"
    and "pagesVisited (snd (collectLoop e startUrl limit maxPages pageNumber 0 seen pg))
           = pagesVisited pg + min 2 (maxPages + 1 - pageNumber)"
proof -
  obtain r pg1 where f: "fetchPage e startUrl pageNumber pg = (r, pg1)"
    by (cases "fetchPage e startUrl pageNumber pg")
  have r: "r = Some []" and v: "pagesVisited pg1 = pagesVisited pg + 1"
    using fetchPage_stub [OF assms(1,2), of startUrl pageNumber pg] f by simp_all
  obtain r2 pg2 where f2: "fetchPage e startUrl (pageNumber + 1) pg1 = (r2, pg2)"
    by (cases "fetchPage e startUrl (pageNumber + 1) pg1")
  have r2: "r2 = Some []" and v2: "pagesVisited pg2 = pagesVisited pg1 + 1"
    using fetchPage_stub [OF assms(1,2), of startUrl "pageNumber + 1" pg1] f2 by simp_all
  have step: "collectLoop e startUrl limit maxPages pageNumber 0 seen pg
                = collectLoop e startUrl limit maxPages (pageNumber + 1) 1 seen pg1"
    using assms(3) f r by (subst collectLoop.simps [of e startUrl limit maxPages pageNumber]) simp
  have second: "collectLoop e startUrl limit maxPages (pageNumber + 1) 1 seen pg1
               = (if pageNumber + 1 \<le> maxPages then (Inr seen, pg2) else (Inr seen, pg1))"
    using f2 r2 by (subst collectLoop.simps) simp
  show "fst (collectLoop e startUrl limit maxPages pageNumber 0 seen pg) = Inr seen"
    using step second by simp
  show "pagesVisited (snd (collectLoop e startUrl limit maxPages pageNumber 0 seen pg))
          = pagesVisited pg + min 2 (maxPages + 1 - pageNumber)"
    using assms(3) v v2 step second by (auto simp: min_def)
qed

lemma collectPeople_stub:
  assumes "\<forall>pg. actionOk e pg"
      and "\<forall>pg. rawPeopleCardsToResults (envNewURL e) (evalCards e pg) = people"
      and "distinct (map profileUrl people)"
      and "envNewURL e startUrl None \<noteq> None"
      and "1 \<le> maxPages"
      and "0 < limit"
  shows "fst (collectPeopleResultsByPageNumber e pg startUrl limit maxPages)
           = Inr (take (nat limit) people)"
    and "pagesVisited (snd (collectPeopleResultsByPageNumber e pg startUrl limit maxPages))
           = pagesVisited pg
             + (if people = [] then min 2 maxPages
                else if limit \<le> int (length people) then 1
                else maxPages)"
proof -
  let ?S = "map (\<lambda>p. (profileUrl p, p)) people"
  let ?loop = "collectLoop e startUrl limit maxPages 1 0 [] pg"
  have b: "foldl addIfAbsent [] people = ?S" "foldl addIfAbsent ?S people = ?S"
    using foldl_add_batch [of people addIfAbsent profileUrl "\<lambda>p. p"] assms(3)
    by (simp_all add: addIfAbsent_step)
  have vals: "mapValues ?S = people" by (simp add: mapValues_def comp_def)
  have res: "fst (collectPeopleResultsByPageNumber e pg startUrl limit maxPages)
               = (case fst ?loop of Inl err \<Rightarrow> Inl err
                  | Inr seen \<Rightarrow> Inr (take (nat limit) (mapValues seen)))"
            "snd (collectPeopleResultsByPageNumber e pg startUrl limit maxPages) = snd ?loop"
    using assms(4,6)
    by (auto simp: collectPeopleResultsByPageNumber_def sliceTo_take
             split: option.splits prod.splits sum.splits)
  have l: "fst ?loop = Inr (if people = [] then [] else ?S)
           \<and> pagesVisited (snd ?loop)
               = pagesVisited pg
                 + (if people = [] then min 2 maxPages
                    else if limit \<le> int (length people) then 1
                    else maxPages)"
  proof (cases "people = []")
    case True
    then show ?thesis
      using collectLoop_stub_empty [of e 1 maxPages startUrl limit "[]" pg] assms(1,2,5)
      by simp
  next
    case ne: False
    show ?thesis
    proof (cases "limit \<le> int (length people)")
      case True
      then show ?thesis
        using collectLoop_stub_limit [of e people limit "[]" 1 maxPages startUrl 0 pg]
              assms(1,2,5) ne b(1)
        by simp
    next
      case False
      then show ?thesis
        using collectLoop_stub_all_pages [of e people ?S limit "[]" 1 maxPages startUrl 0 pg]
              assms(1,2,5) ne b
        by simp
    qed
  qed
  show "fst (collectPeopleResultsByPageNumber e pg startUrl limit maxPages)
          = Inr (take (nat limit) people)"
    using l vals by (simp add: res mapValues_def)
  show "pagesVisited (snd (collectPeopleResultsByPageNumber e pg startUrl limit maxPages))
          = pagesVisited pg
            + (if people = [] then min 2 maxPages
               else if limit \<le> int (length people) then 1
               else maxPages)"
    using l by (simp add: res)
qed

subsection \<open>The rounds of the collection of posts\<close>

lemma addPost_step:
  assumes "po_postUrl p \<noteq> []" and "normalizeProfileUrl newURL (po_postUrl p) = po_postUrl p"
  shows "addPost newURL seen p
           = (if po_postUrl p \<in> fst ` set seen then seen else seen @ [(po_postUrl p, p)])"
  using assms by (simp add: addPost_def Let_def mapHas_def mapSet_absent)

lemma postsLoop_stable:
  assumes "\<forall>pg. actionOk e pg"
      and "\<forall>pg. evalPosts e pg = posts"
      and "foldl (addPost (envNewURL e)) S posts = S"
      and "\<not> limit \<le> int (length S)"
  shows "stableRounds < 4 \<Longrightarrow> round + (4 - stableRounds) \<le> maxRounds \<Longrightarrow>
         fst (postsLoop e w limit maxRounds round stableRounds (length S) S pg) = Inr S
         \<and> roundsOf (PostCards w)
             (snd (postsLoop e w limit maxRounds round stableRounds (length S) S pg))
             = roundsOf (PostCards w) pg + (4 - stableRounds)"
proof (induction "3 - stableRounds" arbitrary: round stableRounds pg)
  case 0
  then have s: "stableRounds = 3" and r: "round < maxRounds" by simp_all
  have "postsLoop e w limit maxRounds round stableRounds (length S) S pg
          = (Inr S, pg @ [Evaluate (PostCards w)])"
    using assms s r by (subst postsLoop.simps) (simp add: Let_def nextStable_def)
  then show ?case using s by (simp add: roundsOf_def)
next
  case (Suc k)
  then have s: "stableRounds < 3" and r: "round < maxRounds"
    and k: "k = 3 - (stableRounds + 1)" and s1: "stableRounds + 1 < 4"
    and r1: "(round + 1) + (4 - (stableRounds + 1)) \<le> maxRounds"
    by simp_all
  let ?pg2 = "pg @ [Evaluate (PostCards w)] @ [Evaluate ScrollBy]"
  have step: "postsLoop e w limit maxRounds round stableRounds (length S) S pg
                = postsLoop e w limit maxRounds (round + 1) (stableRounds + 1) (length S) S ?pg2"
    using assms s r
    by (subst postsLoop.simps [of e w limit maxRounds round]) (simp add: Let_def nextStable_def)
  have "fst (postsLoop e w limit maxRounds (round + 1) (stableRounds + 1) (length S) S ?pg2) = Inr S
        \<and> roundsOf (PostCards w)
            (snd (postsLoop e w limit maxRounds (round + 1) (stableRounds + 1) (length S) S ?pg2))
            = roundsOf (PostCards w) ?pg2 + (4 - (stableRounds + 1))"
    using Suc.hyps(1) [OF k s1 r1] .
  then show ?case using step s by (simp add: roundsOf_def)
qed

lemma listPosts_stub:
  assumes "\<forall>pg. actionOk e pg"
      and "\<forall>pg. evalPosts e pg = posts"
      and "\<forall>p \<in> set posts. po_postUrl p \<noteq> []
             \<and> normalizeProfileUrl (envNewURL e) (po_postUrl p) = po_postUrl p"
      and "distinct (map po_postUrl posts)"
      and "0 < limit"
  shows "fst (listPosts e pg u limit w) = Inr (take (nat limit) posts)"
    and "roundsOf (PostCards w) (snd (listPosts e pg u limit w))
           = roundsOf (PostCards w) pg
             + (if limit \<le> int (length posts) then 1 else if posts = [] then 4 else 5)"
proof -
  let ?S = "map (\<lambda>p. (po_postUrl p, p)) posts"
  let ?pg1 = "pg @ [Goto (normalizeProfileBase (envNewURL e) u @ jsstr ''recent-activity/all/'')]"
  let ?loop = "postsLoop e w limit 30 0 0 0 [] ?pg1"
  have b: "foldl (addPost (envNewURL e)) [] posts = ?S"
          "foldl (addPost (envNewURL e)) ?S posts = ?S"
    using foldl_add_batch [of posts "addPost (envNewURL e)" po_postUrl "\<lambda>p. p"] assms(3,4)
    by (simp_all add: addPost_step)
  have vals: "mapValues ?S = posts" by (simp add: mapValues_def comp_def)
  have res: "fst (listPosts e pg u limit w)
               = (case fst ?loop of Inl err \<Rightarrow> Inl err
                  | Inr seen \<Rightarrow> Inr (take (nat limit) (mapValues seen)))"
            "snd (listPosts e pg u limit w) = snd ?loop"
    using assms(1,5)
    by (auto simp: listPosts_def sliceTo_take Let_def split: prod.splits sum.splits)
  have g: "roundsOf (PostCards w) ?pg1 = roundsOf (PostCards w) pg"
    by (simp add: roundsOf_def)
  have l: "fst ?loop = Inr ?S
           \<and> roundsOf (PostCards w) (snd ?loop)
               = roundsOf (PostCards w) pg
                 + (if limit \<le> int (length posts) then 1 else if posts = [] then 4 else 5)"
  proof (cases "limit \<le> int (length posts)")
    case True
    have "?loop = (Inr ?S, ?pg1 @ [Evaluate (PostCards w)])"
      using assms(2) True b(1) by (subst postsLoop.simps) (simp add: Let_def)
    then show ?thesis using True by (simp add: roundsOf_def)
  next
    case lt: False
    show ?thesis
    proof (cases "posts = []")
      case True
      have "fst (postsLoop e w limit 30 0 0 (length ?S) ?S ?pg1) = Inr ?S
            \<and> roundsOf (PostCards w) (snd (postsLoop e w limit 30 0 0 (length ?S) ?S ?pg1))
                = roundsOf (PostCards w) ?pg1 + (4 - 0)"
        using postsLoop_stable [of e posts ?S limit 0 0 30 w ?pg1] assms(1,2) b(2) lt by simp
      then show ?thesis using True lt g assms(5) by simp
    next
      case ne: False
      let ?pg2 = "?pg1 @ [Evaluate (PostCards w)] @ [Evaluate ScrollBy]"
      have step: "?loop = postsLoop e w limit 30 1 0 (length ?S) ?S ?pg2"
        using assms(1,2) lt ne b(1)
        by (subst postsLoop.simps [of e w limit 30 0]) (simp add: Let_def nextStable_def)
      have "fst (postsLoop e w limit 30 1 0 (length ?S) ?S ?pg2) = Inr ?S
            \<and> roundsOf (PostCards w) (snd (postsLoop e w limit 30 1 0 (length ?S) ?S ?pg2))
                = roundsOf (PostCards w) ?pg2 + (4 - 0)"
        using postsLoop_stable [of e posts ?S limit 0 1 30 w ?pg2] assms(1,2) b(2) lt by simp
      then show ?thesis using step lt ne by (simp add: roundsOf_def)
    qed
  qed
  show "fst (listPosts e pg u limit w) = Inr (take (nat limit) posts)"
    using l vals by (simp add: res mapValues_def)
  show "roundsOf (PostCards w) (snd (listPosts e pg u limit w))
          = roundsOf (PostCards w) pg
            + (if limit \<le> int (length posts) then 1 else if posts = [] then 4 else 5)"
    using l by (simp add: res)
qed

subsection \<open>The rounds of the collection of connections\<close>

lemma addConnection_step:
  assumes "rc_name c \<noteq> []" and "rc_profileUrl c \<noteq> []"
      and "toCanonicalProfileUrl newURL (rc_profileUrl c) = rc_profileUrl c"
  shows "addConnection newURL seen c
           = (if rc_profileUrl c \<in> fst ` set seen then seen
              else seen @ [(rc_profileUrl c, connectionResult c)])"
  using assms
  by (simp add: addConnection_def Let_def mapHas_def mapSet_absent connectionResult_def)

lemma connectionsLoop_stable:
  assumes "\<forall>pg. actionOk e pg"
      and "\<forall>pg. evalConnections e pg = conns"
      and "foldl (addConnection (envNewURL e)) S conns = S"
      and "\<not> limit \<le> int (length S)"
  shows "stableRounds < 5 \<Longrightarrow> round + (5 - stableRounds) \<le> maxRounds \<Longrightarrow>
         fst (connectionsLoop e limit maxRounds round stableRounds (length S) S pg) = Inr S
         \<and> roundsOf ConnectionCards
             (snd (connectionsLoop e limit maxRounds round stableRounds (length S) S pg))
             = roundsOf ConnectionCards pg + (5 - stableRounds)"
proof (induction "4 - stableRounds" arbitrary: round stableRounds pg)
  case 0
  then have s: "stableRounds = 4" and r: "round < maxRounds" by simp_all
  have "connectionsLoop e limit maxRounds round stableRounds (length S) S pg
          = (Inr S, pg @ [Evaluate ConnectionCards])"
    using assms s r by (subst connectionsLoop.simps) (simp add: Let_def nextStable_def)
  then show ?case using s by (simp add: roundsOf_def)
next
  case (Suc k)
  then have s: "stableRounds < 4" and r: "round < maxRounds"
    and k: "k = 4 - (stableRounds + 1)" and s1: "stableRounds + 1 < 5"
    and r1: "(round + 1) + (5 - (stableRounds + 1)) \<le> maxRounds"
    by simp_all
  let ?pg2 = "pg @ [Evaluate ConnectionCards] @ [Evaluate ScrollBy]"
  have step: "connectionsLoop e limit maxRounds round stableRounds (length S) S pg
                = connectionsLoop e limit maxRounds (round + 1) (stableRounds + 1) (length S) S ?pg2"
    using assms s r
    by (subst connectionsLoop.simps [of e limit maxRounds round]) (simp add: Let_def nextStable_def)
  have "fst (connectionsLoop e limit maxRounds (round + 1) (stableRounds + 1) (length S) S ?pg2) = Inr S
        \<and> roundsOf ConnectionCards
            (snd (connectionsLoop e limit maxRounds (round + 1) (stableRounds + 1) (length S) S ?pg2))
            = roundsOf ConnectionCards ?pg2 + (5 - (stableRounds + 1))"
    using Suc.hyps(1) [OF k s1 r1] .
  then show ?case using step s by (simp add: roundsOf_def)
qed

lemma listConnections_stub:
  assumes "\<forall>pg. actionOk e pg"
      and "\<forall>pg. evalConnections e pg = conns"
      and "\<forall>c \<in> set conns. rc_name c \<noteq> [] \<and> rc_profileUrl c \<noteq> []
             \<and> toCanonicalProfileUrl (envNewURL e) (rc_profileUrl c) = rc_profileUrl c"
      and "distinct (map rc_profileUrl conns)"
      and "0 < limit"
  shows "fst (listConnections e pg limit) = Inr (take (nat limit) (map connectionResult conns))"
    and "roundsOf ConnectionCards (snd (listConnections e pg limit))
           = roundsOf ConnectionCards pg
             + (if limit \<le> int (length conns) then 1 else if conns = [] then 5 else 6)"
proof -
  let ?S = "map (\<lambda>c. (rc_profileUrl c, connectionResult c)) conns"
  let ?pg1 = "pg @ [Goto (jsstr ''https://www.linkedin.com/mynetwork/invite-connect/connections/'')]"
  let ?loop = "connectionsLoop e limit 60 0 0 0 [] ?pg1"
  have b: "foldl (addConnection (envNewURL e)) [] conns = ?S"
          "foldl (addConnection (envNewURL e)) ?S conns = ?S"
    using foldl_add_batch [of conns "addConnection (envNewURL e)" rc_profileUrl connectionResult]
          assms(3,4)
    by (simp_all add: addConnection_step)
  have vals: "mapValues ?S = map connectionResult conns" by (simp add: mapValues_def comp_def)
  have res: "fst (listConnections e pg limit)
               = (case fst ?loop of Inl err \<Rightarrow> Inl err
                  | Inr seen \<Rightarrow> Inr (take (nat limit) (mapValues seen)))"
            "snd (listConnections e pg limit) = snd ?loop"
    using assms(1,5)
    by (auto simp: listConnections_def sliceTo_take Let_def split: prod.splits sum.splits)
  have g: "roundsOf ConnectionCards ?pg1 = roundsOf ConnectionCards pg"
    by (simp add: roundsOf_def)
  have l: "fst ?loop = Inr ?S
           \<and> roundsOf ConnectionCards (snd ?loop)
               = roundsOf ConnectionCards pg
                 + (if limit \<le> int (length conns) then 1 else if conns = [] then 5 else 6)"
  proof (cases "limit \<le> int (length conns)")
    case True
    have "?loop = (Inr ?S, ?pg1 @ [Evaluate ConnectionCards])"
      using assms(2) True b(1) by (subst connectionsLoop.simps) (simp add: Let_def)
    then show ?thesis using True by (simp add: roundsOf_def)
  next
    case lt: False
    show ?thesis
    proof (cases "conns = []")
      case True
      have "fst (connectionsLoop e limit 60 0 0 (length ?S) ?S ?pg1) = Inr ?S
            \<and> roundsOf ConnectionCards (snd (connectionsLoop e limit 60 0 0 (length ?S) ?S ?pg1))
                = roundsOf ConnectionCards ?pg1 + (5 - 0)"
        using connectionsLoop_stable [of e conns ?S limit 0 0 60 ?pg1] assms(1,2) b(2) lt by simp
      then show ?thesis using True lt g assms(5) by simp
    next
      case ne: False
      let ?pg2 = "?pg1 @ [Evaluate ConnectionCards] @ [Evaluate ScrollBy]"
      have step: "?loop = connectionsLoop e limit 60 1 0 (length ?S) ?S ?pg2"
        using assms(1,2) lt ne b(1)
        by (subst connectionsLoop.simps [of e limit 60 0]) (simp add: Let_def nextStable_def)
      have "fst (connectionsLoop e limit 60 1 0 (length ?S) ?S ?pg2) = Inr ?S
            \<and> roundsOf ConnectionCards (snd (connectionsLoop e limit 60 1 0 (length ?S) ?S ?pg2))
                = roundsOf ConnectionCards ?pg2 + (5 - 0)"
        using connectionsLoop_stable [of e conns ?S limit 0 1 60 ?pg2] assms(1,2) b(2) lt by simp
      then show ?thesis using step lt ne by (simp add: roundsOf_def)
    qed
  qed
  show "fst (listConnections e pg limit) = Inr (take (nat limit) (map connectionResult conns))"
    using l by (simp add: res vals)
  show "roundsOf ConnectionCards (snd (listConnections e pg limit))
          = roundsOf ConnectionCards pg
            + (if limit \<le> int (length conns) then 1 else if conns = [] then 5 else 6)"
    using l by (simp add: res)
qed

subsection \<open>The stub world of the examples\<close>

lemma exCardJane_results: "rawPeopleCardsToResults (whatwgURL noExt) [exCardJane] = [exPersonJane]"
  by (simp add: collect_defs all_defs)

lemma exSearchUrl_parses: "whatwgURL noExt exSearchUrl None \<noteq> None"
  by (simp add: collect_defs all_defs)

lemma exPost_canonical:
  "po_postUrl exPost \<noteq> []"
  "normalizeProfileUrl (whatwgURL noExt) (po_postUrl exPost) = po_postUrl exPost"
  by (simp_all add: collect_defs all_defs)

lemma exConnection_canonical:
  "rc_name exConnection \<noteq> []"
  "rc_profileUrl exConnection \<noteq> []"
  "toCanonicalProfileUrl (whatwgURL noExt) (rc_profileUrl exConnection) = rc_profileUrl exConnection"
  by (simp_all add: collect_defs all_defs)

subsection \<open>Termination and the number of rounds\<close>

text \<open>
  Claim C8, as the code has it. Take a world in which every navigation and scroll
  succeeds and every round reads the same batch: the same person records with distinct
  canonical profile links, the same posts with distinct canonical links, the same
  connections with names and distinct canonical links. Take a limit above zero and, for
  the search, a start link that parses and at least one page. Then each collection
  returns, and returns the first \<open>limit\<close> records of the batch in the order of the batch,
  that is min(N, limit) records. The rounds differ. All three stop in the first round
  when the batch reaches the limit. Below the limit, \<open>listPosts\<close> stops by stability after
  5 rounds (4 when the batch is empty) of at most 30, and \<open>listConnections\<close> after 6 rounds
  (5 when the batch is empty) of at most 60. The collection by page number has no
  stability rule: it stops after two pages when the batch is empty, and otherwise, below
  the limit, it visits every one of its \<open>maxPages\<close> pages.
\<close>

theorem C8_same_batch_every_round:
  assumes "\<forall>pg. actionOk e pg"
      and "\<forall>pg. rawPeopleCardsToResults (envNewURL e) (evalCards e pg) = people"
      and "distinct (map profileUrl people)"
      and "envNewURL e startUrl None \<noteq> None"
      and "1 \<le> maxPages"
      and "\<forall>pg. evalPosts e pg = posts"
      and "\<forall>p \<in> set posts. po_postUrl p \<noteq> []
             \<and> normalizeProfileUrl (envNewURL e) (po_postUrl p) = po_postUrl p"
      and "distinct (map po_postUrl posts)"
      and "\<forall>pg. evalConnections e pg = conns"
      and "\<forall>c \<in> set conns. rc_name c \<noteq> [] \<and> rc_profileUrl c \<noteq> []
             \<and> toCanonicalProfileUrl (envNewURL e) (rc_profileUrl c) = rc_profileUrl c"
      and "distinct (map rc_profileUrl conns)"
      and "0 < limit"
  shows "fst (collectPeopleResultsByPageNumber e pg startUrl limit maxPages)
           = Inr (take (nat limit) people)
         \<and> pagesVisited (snd (collectPeopleResultsByPageNumber e pg startUrl limit maxPages))
             = pagesVisited pg
               + (if people = [] then min 2 maxPages
                  else if limit \<le> int (length people) then 1
                  else maxPages)
         \<and> fst (listPosts e pg u limit w) = Inr (take (nat limit) posts)
         \<and> roundsOf (PostCards w) (snd (listPosts e pg u limit w))
             = roundsOf (PostCards w) pg
               + (if limit \<le> int (length posts) then 1 else if posts = [] then 4 else 5)
         \<and> fst (listConnections e pg limit) = Inr (take (nat limit) (map connectionResult conns))
         \<and> roundsOf ConnectionCards (snd (listConnections e pg limit))
             = roundsOf ConnectionCards pg
               + (if limit \<le> int (length conns) then 1 else if conns = [] then 5 else 6)"
  using collectPeople_stub [where pg = pg, OF assms(1,2,3,4,5,12)]
        listPosts_stub [where pg = pg and u = u and w = w, OF assms(1,6,7,8,12)]
        listConnections_stub [where pg = pg, OF assms(1,9,10,11,12)]
  by simp

text \<open>
  One person, one post and one connection in every round, and a limit of 2: the search
  visits its 30 pages, the posts take 5 rounds and the connections 6.
\<close>

theorem C8_same_batch_every_round_witness:
  "fst (collectPeopleResultsByPageNumber (stubEnv [exCardJane] [] [exPost] [exConnection]) []
          exSearchUrl 2 30) = Inr [exPersonJane]
   \<and> pagesVisited (snd (collectPeopleResultsByPageNumber
                          (stubEnv [exCardJane] [] [exPost] [exConnection]) [] exSearchUrl 2 30)) = 30
   \<and> fst (listPosts (stubEnv [exCardJane] [] [exPost] [exConnection]) []
            (jsstr ''jane-doe'') 2 False) = Inr [exPost]
   \<and> roundsOf (PostCards False)
        (snd (listPosts (stubEnv [exCardJane] [] [exPost] [exConnection]) []
                (jsstr ''jane-doe'') 2 False)) = 5
   \<and> fst (listConnections (stubEnv [exCardJane] [] [exPost] [exConnection]) [] 2)
       = Inr [connectionResult exConnection]
   \<and> roundsOf ConnectionCards
        (snd (listConnections (stubEnv [exCardJane] [] [exPost] [exConnection]) [] 2)) = 6"
  using C8_same_batch_every_round
          [where e = "stubEnv [exCardJane] [] [exPost] [exConnection]" and people = "[exPersonJane]"
             and startUrl = exSearchUrl and maxPages = 30 and posts = "[exPost]"
             and conns = "[exConnection]" and limit = 2 and pg = "[]"
             and u = "jsstr ''jane-doe''" and w = False]
        exCardJane_results exSearchUrl_parses exPost_canonical exConnection_canonical
  by (simp add: stubEnv_fields pagesVisited_def roundsOf_def)

text \<open>
  Against the claim as it was stated: with one person in every round and a limit of 10,
  the search by page number is stopped by no stability rule; it returns the one record
  after all 30 pages.
\<close>

theorem C8_all_pages_counterexample:
  "fst (collectPeopleResultsByPageNumber (stubEnv [exCardJane] [] [] []) [] exSearchUrl 10 30)
     = Inr [exPersonJane]
   \<and> pagesVisited (snd (collectPeopleResultsByPageNumber (stubEnv [exCardJane] [] [] []) []
                          exSearchUrl 10 30)) = 30"
  using collectPeople_stub
          [where e = "stubEnv [exCardJane] [] [] []" and people = "[exPersonJane]"
             and startUrl = exSearchUrl and maxPages = 30 and limit = 10 and pg = "[]"]
        exCardJane_results exSearchUrl_parses
  by (simp add: stubEnv_fields pagesVisited_def)

end
